theory Spec2Isabelle
  imports Main "HOL-Library.AList" "HOL-Library.Sublist"
begin

section \<open>Types as \<^verbatim>\<open>reflect.Type\<close> shows them\<close>

text \<open>
  Package \<^verbatim>\<open>regexpstruct\<close> (file \<^verbatim>\<open>re.go\<close>) walks the type \<^verbatim>\<open>T\<close> with package
  \<^verbatim>\<open>reflect\<close>. A type is modelled by what the walk asks of it:
  \<^item> its kind: \<^verbatim>\<open>reflect.String\<close>, \<^verbatim>\<open>reflect.Ptr\<close> (with \<^verbatim>\<open>Elem()\<close>), \<^verbatim>\<open>reflect.Struct\<close>,
    or any other kind (\<open>KOther\<close>: integers, slices, maps, interfaces, ...);
  \<^item> for a struct: \<^verbatim>\<open>Name()\<close> (empty for an unnamed struct type), whether it is
    \<^verbatim>\<open>AssignableTo(typeSetter)\<close>, whether it is \<^verbatim>\<open>AssignableTo(typeTextUnmarshaler)\<close>,
    and its fields in declaration order;
  \<^item> for a field (\<^verbatim>\<open>reflect.StructField\<close>): \<^verbatim>\<open>Name\<close>, \<^verbatim>\<open>IsExported()\<close>, \<^verbatim>\<open>Anonymous\<close>,
    \<^verbatim>\<open>Tag\<close> and \<^verbatim>\<open>Type\<close>. The tag string is kept parsed, as the list of its
    \<^verbatim>\<open>key:"value"\<close> pairs in the order written.

  A type is a finite tree here. A Go type that reaches itself through pointers
  (\<^verbatim>\<open>type T struct { *T }\<close>) has no such tree; \<^verbatim>\<open>extractFields\<close> does not return on it
  when the cycle runs through embedded or tagged struct fields, and nothing below is
  about such types.
\<close>

datatype rtype =
    KString
  | KOther
  | KPtr rtype
  | KStruct string bool bool "StructField list"
and StructField =
    StructField (Name: string) (IsExported: bool) (Anonymous: bool)
      (Tag: "(string \<times> string) list") (Type: rtype)

text \<open>\<^verbatim>\<open>StructTag.Lookup\<close>: the value of the first pair with that key, and whether there is one.\<close>

definition Lookup :: "(string \<times> string) list \<Rightarrow> string \<Rightarrow> string \<times> bool" where
  "Lookup tag key = (case map_of tag key of Some v \<Rightarrow> (v, True) | None \<Rightarrow> ([], False))"

section \<open>Getters\<close>

text \<open>
  \<^verbatim>\<open>extractFields\<close> builds closures of type \<^verbatim>\<open>func(reflect.Value) reflect.Value\<close> out of
  two primitive ones and composition. A getter is represented by the list of the
  primitive closures it runs, first one first:
  \<^item> \<open>FieldStep index\<close> is \<^verbatim>\<open>func(v) { return v.Field(index) }\<close>;
  \<^item> \<open>ElemStep\<close> is
    \<^verbatim>\<open>func(v) { if v.IsNil() { v.Set(reflect.New(v.Type().Elem())) }; return v.Elem() }\<close>;
  \<^item> \<^verbatim>\<open>func(v) { return getter(v.Field(index)) }\<close> is \<open>FieldStep index # getter\<close>, and
    \<^verbatim>\<open>func(v) { return inner(w(v)) }\<close> is \<open>w @ inner\<close>.
  The same steps name a place inside a value (section on values below).
\<close>

datatype step = FieldStep nat | ElemStep

type_synonym getter = "step list"

section \<open>\<^verbatim>\<open>extractFields\<close> and \<^verbatim>\<open>wrapFields\<close>\<close>

text \<open>
  The Go map \<^verbatim>\<open>map[string]func(reflect.Value) reflect.Value\<close> is an association list
  with distinct keys, or \<open>None\<close> for the nil map. \<open>assign\<close> is \<^verbatim>\<open>fields[name] = g\<close> on a
  map that is not nil, \<open>lookup\<close> is \<^verbatim>\<open>fields[name]\<close> (\<open>None\<close> for Go's nil function),
  \<open>entries\<close> is what \<^verbatim>\<open>range\<close> visits. Go visits in an unspecified order; every loop
  of the program writes one distinct key per entry visited, so the order does not show
  in the resulting map.
\<close>

type_synonym fieldmap = "(string \<times> getter) list option"

definition entries :: "fieldmap \<Rightarrow> (string \<times> getter) list" where
  "entries fields = (case fields of None \<Rightarrow> [] | Some m \<Rightarrow> m)"

definition lookup :: "fieldmap \<Rightarrow> string \<Rightarrow> getter option" where
  "lookup fields name = map_of (entries fields) name"

definition assign :: "fieldmap \<Rightarrow> string \<Rightarrow> getter \<Rightarrow> fieldmap" where
  "assign fields name g = Some (AList.update name g (entries fields))"

definition wrapFields :: "fieldmap \<Rightarrow> getter \<Rightarrow> fieldmap" where
  "wrapFields fields w = map_option (map (\<lambda>(name, inner). (name, w @ inner))) fields"

text \<open>
  The test \<^verbatim>\<open>isStruct\<close> of \<^verbatim>\<open>extractFields\<close>: kind \<^verbatim>\<open>Struct\<close>, and unnamed or neither a
  setter nor a text unmarshaler.
\<close>

fun isStruct :: "rtype \<Rightarrow> bool" where
  "isStruct (KStruct n s u fs) = (n = [] \<or> (\<not> s \<and> \<not> u))"
| "isStruct t = False"

text \<open>
  \<open>extractFields\<close> is the function of that name; \<open>extractLoop\<close> is its loop
  \<^verbatim>\<open>for i := 0; i < t.NumField(); i++\<close> from index \<open>i\<close> on, with the map built so far;
  \<open>extractField\<close> is the body of the loop for one field.
\<close>

fun extractFields :: "rtype \<Rightarrow> string \<Rightarrow> fieldmap"
and extractLoop :: "StructField list \<Rightarrow> nat \<Rightarrow> string \<Rightarrow> fieldmap \<Rightarrow> fieldmap"
and extractField :: "StructField \<Rightarrow> nat \<Rightarrow> string \<Rightarrow> fieldmap \<Rightarrow> fieldmap"
where
  "extractFields (KPtr t) tagName = wrapFields (extractFields t tagName) [ElemStep]"
| "extractFields (KStruct n s u fs) tagName = extractLoop fs 0 tagName None"
| "extractFields KString tagName = None"
| "extractFields KOther tagName = None"
| "extractLoop [] i tagName fields = fields"
| "extractLoop (f # fs) i tagName fields =
     extractLoop fs (Suc i) tagName (extractField f i tagName fields)"
| "extractField (StructField nm ex an tg ty) index tagName fields =
     (case Lookup tg tagName of (tag, ok) \<Rightarrow>
        if ok \<and> tag \<noteq> [] then
          (let fields = (if fields = None then Some [] else fields) in
           if isStruct ty then
             fold (\<lambda>(name, g) fields. assign fields (tag @ ''__'' @ name) (FieldStep index # g))
               (entries (extractFields ty tagName)) fields
           else assign fields tag [FieldStep index])
        else if an then
          (let fields2 = wrapFields (extractFields ty tagName) [FieldStep index] in
           if fields = None then fields2
           else fold (\<lambda>(name, g) fields. assign fields name g) (entries fields2) fields)
        else fields)"

text \<open>The struct \<^verbatim>\<open>capture\<close>, with its two fields as selectors.\<close>

datatype capture = Capture (index: nat) (get: getter)

text \<open>
  The loop \<^verbatim>\<open>for i := 1; i < len(matchesNames); i++\<close> of \<^verbatim>\<open>Compile\<close>, from index \<open>i\<close> on:
  \<open>names\<close> is \<^verbatim>\<open>matchesNames[i:]\<close>.
\<close>

fun bindLoop :: "string list \<Rightarrow> nat \<Rightarrow> fieldmap \<Rightarrow> capture list \<Rightarrow> capture list" where
  "bindLoop [] i fields captures = captures"
| "bindLoop (name # names) i fields captures =
     (if name = [] then bindLoop names (Suc i) fields captures
      else (case lookup fields name of
              Some g \<Rightarrow> bindLoop names (Suc i) fields (captures @ [Capture i g])
            | None \<Rightarrow> bindLoop names (Suc i) fields captures))"

section \<open>Values and \<^verbatim>\<open>reflect.Value\<close>\<close>

text \<open>
  A value of the program is a tree: a string, a struct (its field values in declaration
  order), a pointer (nil, or the value it points to) or a value of another kind (opaque,
  told apart by a number). A pointer owns what it points to: two pointers never share a
  pointee in this model, and records are compared by content.
\<close>

datatype val =
    VString string
  | VOther nat
  | VPtr "val option"
  | VStruct "val list"

text \<open>The zero value of a type (\<^verbatim>\<open>var x T\<close>, \<^verbatim>\<open>make([]T, n)\<close>, \<^verbatim>\<open>reflect.New(t)\<close>).\<close>

fun zero :: "rtype \<Rightarrow> val"
and zeroFields :: "StructField list \<Rightarrow> val list"
where
  "zero KString = VString []"
| "zero KOther = VOther 0"
| "zero (KPtr t) = VPtr None"
| "zero (KStruct n s u fs) = VStruct (zeroFields fs)"
| "zeroFields [] = []"
| "zeroFields (StructField nm ex an tg ty # fs) = zero ty # zeroFields fs"

text \<open>
  A place inside a value is the list of steps that lead to it from the root: into field
  \<open>i\<close> of a struct, or through a pointer to its pointee. \<open>load\<close> reads the value at a
  place, \<open>store_at\<close> replaces it; both answer \<open>None\<close> when the place does not exist.
\<close>

fun load :: "step list \<Rightarrow> val \<Rightarrow> val option" where
  "load [] v = Some v"
| "load (FieldStep i # p) (VStruct vs) = (if i < length vs then load p (vs ! i) else None)"
| "load (ElemStep # p) (VPtr (Some v)) = load p v"
| "load (s # p) v = None"

fun store_at :: "step list \<Rightarrow> val \<Rightarrow> val \<Rightarrow> val option" where
  "store_at [] x v = Some x"
| "store_at (FieldStep i # p) x (VStruct vs) =
     (if i < length vs
      then (case store_at p x (vs ! i) of None \<Rightarrow> None | Some y \<Rightarrow> Some (VStruct (vs[i := y])))
      else None)"
| "store_at (ElemStep # p) x (VPtr (Some v)) =
     (case store_at p x v of None \<Rightarrow> None | Some y \<Rightarrow> Some (VPtr (Some y)))"
| "store_at (s # p) x v = None"

text \<open>
  Every failure of the program is a value. The panics of \<^verbatim>\<open>Compile\<close> are its three
  \<^verbatim>\<open>panic\<close> calls; \<open>CompileError\<close> is the error \<^verbatim>\<open>regexp.Compile\<close> returned, handed
  back to the caller. The others are the panics of package \<^verbatim>\<open>reflect\<close> and of slice
  indexing that \<^verbatim>\<open>deserialize\<close> can meet. \<open>Nonconforming\<close> is not a Go behaviour: it
  marks a target value whose shape is not that of the type \<^verbatim>\<open>T\<close>, which Go's static
  typing rules out.
\<close>

datatype error =
    PanicInvalidTagName
  | PanicNotStructType
  | PanicNoFields
  | CompileError string
  | PanicValueError
  | PanicFieldIndex
  | PanicUnexportedField
  | PanicIndexOutOfRange
  | Nonconforming

text \<open>
  A \<^verbatim>\<open>reflect.Value\<close> that designates a variable: its type, the place of the variable
  in the target, and the two read-only flags \<^verbatim>\<open>flagStickyRO\<close> and \<^verbatim>\<open>flagEmbedRO\<close> that
  record an unexported field on the way. Every \<^verbatim>\<open>reflect.Value\<close> of this program is
  addressable (it comes from \<^verbatim>\<open>reflect.ValueOf(target).Elem()\<close> or from \<^verbatim>\<open>v.Index(i)\<close>
  of a slice), so \<^verbatim>\<open>flagAddr\<close> is not kept.
\<close>

record Value =
  vtyp :: rtype
  loc :: "step list"
  stickyRO :: bool
  embedRO :: bool

definition flagRO :: "Value \<Rightarrow> bool" where
  "flagRO v = (stickyRO v \<or> embedRO v)"

text \<open>
  \<^verbatim>\<open>reflect.ValueOf(target).Elem()\<close> for a non-nil \<^verbatim>\<open>target *T\<close>, and \<^verbatim>\<open>v.Index(i)\<close> for an
  element of a \<^verbatim>\<open>[]T\<close>: the whole record, writable.
\<close>

definition root :: "rtype \<Rightarrow> Value" where
  "root T = \<lparr>vtyp = T, loc = [], stickyRO = False, embedRO = False\<rparr>"

text \<open>
  \<^verbatim>\<open>v.Field(i)\<close>: panics unless \<^verbatim>\<open>v\<close> is a struct with more than \<^verbatim>\<open>i\<close> fields; the result
  inherits \<^verbatim>\<open>flagStickyRO\<close> and clears \<^verbatim>\<open>flagEmbedRO\<close>, then an unexported field sets
  \<^verbatim>\<open>flagEmbedRO\<close> if it is embedded and \<^verbatim>\<open>flagStickyRO\<close> otherwise.
\<close>

definition Value_Field :: "Value \<Rightarrow> nat \<Rightarrow> error + Value" where
  "Value_Field v i =
     (case vtyp v of
        KStruct n s u fs \<Rightarrow>
          (if i < length fs then
             Inr \<lparr>vtyp = Type (fs ! i), loc = loc v @ [FieldStep i],
                  stickyRO = (stickyRO v \<or> (\<not> IsExported (fs ! i) \<and> \<not> Anonymous (fs ! i))),
                  embedRO = (\<not> IsExported (fs ! i) \<and> Anonymous (fs ! i))\<rparr>
           else Inl PanicFieldIndex)
      | _ \<Rightarrow> Inl PanicValueError)"

text \<open>\<^verbatim>\<open>v.IsNil()\<close> on a pointer; the program calls it on nothing else.\<close>

definition Value_IsNil :: "Value \<Rightarrow> val \<Rightarrow> error + bool" where
  "Value_IsNil v st =
     (case vtyp v of
        KPtr t \<Rightarrow>
          (case load (loc v) st of
             Some (VPtr p) \<Rightarrow> Inr (p = None)
           | _ \<Rightarrow> Inl Nonconforming)
      | _ \<Rightarrow> Inl PanicValueError)"

text \<open>
  \<^verbatim>\<open>v.Set(reflect.New(v.Type().Elem()))\<close>: \<^verbatim>\<open>Set\<close> panics on a read-only \<^verbatim>\<open>v\<close>; otherwise
  the pointer now points to a fresh zero value of the pointee type.
\<close>

definition Value_Set_New :: "Value \<Rightarrow> val \<Rightarrow> error + val" where
  "Value_Set_New v st =
     (case vtyp v of
        KPtr t \<Rightarrow>
          (if flagRO v then Inl PanicUnexportedField
           else (case store_at (loc v) (VPtr (Some (zero t))) st of
                   Some st' \<Rightarrow> Inr st'
                 | None \<Rightarrow> Inl Nonconforming))
      | _ \<Rightarrow> Inl PanicValueError)"

text \<open>
  \<^verbatim>\<open>v.Elem()\<close> on a pointer: the pointee, with both read-only flags kept. On a nil pointer
  Go returns the zero \<^verbatim>\<open>Value\<close>, on which the next call panics; the model panics at once.
\<close>

definition Value_Elem :: "Value \<Rightarrow> val \<Rightarrow> error + Value" where
  "Value_Elem v st =
     (case vtyp v of
        KPtr t \<Rightarrow>
          (case load (loc v) st of
             Some (VPtr (Some x)) \<Rightarrow> Inr (v\<lparr>vtyp := t, loc := loc v @ [ElemStep]\<rparr>)
           | Some (VPtr None) \<Rightarrow> Inl PanicValueError
           | _ \<Rightarrow> Inl Nonconforming)
      | _ \<Rightarrow> Inl PanicValueError)"

text \<open>
  \<^verbatim>\<open>v.SetString(x)\<close>: \<^verbatim>\<open>mustBeAssignable\<close> first, then \<^verbatim>\<open>mustBe(String)\<close>, then the
  assignment.
\<close>

definition Value_SetString :: "Value \<Rightarrow> string \<Rightarrow> val \<Rightarrow> error + val" where
  "Value_SetString v x st =
     (if flagRO v then Inl PanicUnexportedField
      else (case vtyp v of
              KString \<Rightarrow>
                (case store_at (loc v) (VString x) st of
                   Some st' \<Rightarrow> Inr st'
                 | None \<Rightarrow> Inl Nonconforming)
            | _ \<Rightarrow> Inl PanicValueError))"

section \<open>Running a getter\<close>

text \<open>\<open>call g\<close> runs the getter \<open>g\<close> on a \<^verbatim>\<open>reflect.Value\<close> and the target it points into.\<close>

definition allocElem :: "val \<times> Value \<Rightarrow> error + val \<times> Value" where
  "allocElem sv =
     (case sv of (st, v) \<Rightarrow>
        (case Value_IsNil v st of
           Inl e \<Rightarrow> Inl e
         | Inr isnil \<Rightarrow>
             (case (if isnil then Value_Set_New v st else Inr st) of
                Inl e \<Rightarrow> Inl e
              | Inr st' \<Rightarrow>
                  (case Value_Elem v st' of
                     Inl e \<Rightarrow> Inl e
                   | Inr v' \<Rightarrow> Inr (st', v')))))"

fun call :: "getter \<Rightarrow> val \<times> Value \<Rightarrow> error + val \<times> Value" where
  "call [] sv = Inr sv"
| "call (FieldStep i # g) (st, v) =
     (case Value_Field v i of Inl e \<Rightarrow> Inl e | Inr v' \<Rightarrow> call g (st, v'))"
| "call (ElemStep # g) (st, v) =
     (case allocElem (st, v) of Inl e \<Rightarrow> Inl e | Inr sv' \<Rightarrow> call g sv')"

section \<open>The compiled matcher\<close>

text \<open>
  Package \<^verbatim>\<open>regexp\<close> is not part of this program. A compiled \<^verbatim>\<open>*regexp.Regexp\<close> is the
  record of the three methods the program calls; \<^verbatim>\<open>regexp.Compile\<close> is a parameter
  \<open>regexp_Compile\<close> of \<open>Compile\<close>. A nil result of \<^verbatim>\<open>FindStringSubmatch\<close> or
  \<^verbatim>\<open>FindAllStringSubmatch\<close> is \<open>None\<close>.
\<close>

record regexp =
  SubexpNames :: "string list"
  FindStringSubmatch :: "string \<Rightarrow> string list option"
  FindAllStringSubmatch :: "string \<Rightarrow> int \<Rightarrow> string list list option"

record Regexp =
  re :: regexp
  captures :: "capture list"

text \<open>
  \<^verbatim>\<open>Compile[T](expr, structTag)\<close>. The type argument \<^verbatim>\<open>T\<close> is an argument. \<open>Inl\<close> is a
  panic or the returned error, \<open>Inr\<close> the returned matcher.
\<close>

fun isStructType :: "rtype \<Rightarrow> bool" where
  "isStructType (KStruct n s u fs) = True"
| "isStructType t = False"

definition Compile ::
  "(string \<Rightarrow> string + regexp) \<Rightarrow> rtype \<Rightarrow> string \<Rightarrow> string \<Rightarrow> error + Regexp" where
  "Compile regexp_Compile T expr structTag =
     (if structTag = [] then Inl PanicInvalidTagName
      else if \<not> isStructType T then Inl PanicNotStructType
      else (case regexp_Compile expr of
              Inl err \<Rightarrow> Inl (CompileError err)
            | Inr r \<Rightarrow>
                (let matchesNames = SubexpNames r;
                     fields = extractFields T structTag
                 in if length (entries fields) = 0 then Inl PanicNoFields
                    else Inr \<lparr>re = r,
                              captures = bindLoop (drop 1 matchesNames) 1 fields []\<rparr>)))"

section \<open>\<^verbatim>\<open>deserialize\<close>, \<^verbatim>\<open>FindStringStruct\<close>, \<^verbatim>\<open>FindAllStringStruct\<close>\<close>

text \<open>
  \<^verbatim>\<open>deserialize(matches, captures, target)\<close> with the record \<^verbatim>\<open>target\<close> points into as
  explicit state: for each capture in order, \<^verbatim>\<open>m.get(target).SetString(matches[m.index])\<close>.
\<close>

fun deserialize :: "string list \<Rightarrow> capture list \<Rightarrow> Value \<Rightarrow> val \<Rightarrow> error + val" where
  "deserialize matches [] target st = Inr st"
| "deserialize matches (m # ms) target st =
     (case call (get m) (st, target) of
        Inl e \<Rightarrow> Inl e
      | Inr (st', v) \<Rightarrow>
          (if index m < length matches then
             (case Value_SetString v (matches ! index m) st' of
                Inl e \<Rightarrow> Inl e
              | Inr st'' \<Rightarrow> deserialize matches ms target st'')
           else Inl PanicIndexOutOfRange))"

text \<open>
  \<^verbatim>\<open>re.FindStringStruct(s, target)\<close> for a non-nil \<^verbatim>\<open>target\<close>: the argument \<open>target\<close> is
  the record behind the pointer, the result is the returned boolean and that record
  after the call.
\<close>

definition FindStringStruct ::
  "rtype \<Rightarrow> Regexp \<Rightarrow> string \<Rightarrow> val \<Rightarrow> error + bool \<times> val" where
  "FindStringStruct T r s target =
     (case FindStringSubmatch (re r) s of
        None \<Rightarrow> Inr (False, target)
      | Some matches \<Rightarrow>
          (case deserialize matches (captures r) (root T) target of
             Inl e \<Rightarrow> Inl e
           | Inr target' \<Rightarrow> Inr (True, target')))"

text \<open>
  A Go slice is nil or holds elements; the nil slice has length 0.
\<close>

datatype 'a slice = NilSlice | MkSlice "'a list"

fun len :: "'a slice \<Rightarrow> nat" where
  "len NilSlice = 0"
| "len (MkSlice xs) = length xs"

text \<open>
  The loop \<^verbatim>\<open>for i := 0; i < nbMatches; i++\<close> of \<^verbatim>\<open>FindAllStringStruct\<close> from index \<open>i\<close>
  on (\<open>matches\<close> is \<^verbatim>\<open>matches[i:]\<close>), over the slice \<open>r\<close>; each element is a record of its
  own.
\<close>

fun findAllLoop ::
  "rtype \<Rightarrow> capture list \<Rightarrow> string list list \<Rightarrow> nat \<Rightarrow> val list \<Rightarrow> error + val list" where
  "findAllLoop T cs [] i r = Inr r"
| "findAllLoop T cs (m # matches) i r =
     (if i < length r then
        (case deserialize m cs (root T) (r ! i) of
           Inl e \<Rightarrow> Inl e
         | Inr x \<Rightarrow> findAllLoop T cs matches (Suc i) (r[i := x]))
      else Inl PanicIndexOutOfRange)"

definition FindAllStringStruct ::
  "rtype \<Rightarrow> Regexp \<Rightarrow> string \<Rightarrow> int \<Rightarrow> error + val slice" where
  "FindAllStringStruct T r s n =
     (case FindAllStringSubmatch (re r) s n of
        None \<Rightarrow> Inr NilSlice
      | Some matches \<Rightarrow>
          (let nbMatches = length matches;
               rs = replicate nbMatches (zero T)
           in (case findAllLoop T (captures r) matches 0 rs of
                 Inl e \<Rightarrow> Inl e
               | Inr rs' \<Rightarrow> Inr (MkSlice rs'))))"

section \<open>A predicate of the specification\<close>

text \<open>
  Some field of the type carries a non-empty value under the tag key, searched through
  every field type: nested structs, embedded members and pointers.
\<close>

fun carriesTag :: "rtype \<Rightarrow> string \<Rightarrow> bool"
and carriesTagFields :: "StructField list \<Rightarrow> string \<Rightarrow> bool"
where
  "carriesTag (KPtr t) tagName = carriesTag t tagName"
| "carriesTag (KStruct n s u fs) tagName = carriesTagFields fs tagName"
| "carriesTag KString tagName = False"
| "carriesTag KOther tagName = False"
| "carriesTagFields [] tagName = False"
| "carriesTagFields (StructField nm ex an tg ty # fs) tagName =
     ((snd (Lookup tg tagName) \<and> fst (Lookup tg tagName) \<noteq> [])
      \<or> carriesTag ty tagName \<or> carriesTagFields fs tagName)"

section \<open>The types and patterns of the examples\<close>

text \<open>
  The types of \<^verbatim>\<open>Example\<close> and \<^verbatim>\<open>TestDeep\<close> in \<^verbatim>\<open>re_test.go\<close>, and variants of them with
  a pointer member, with an untagged field and with no field tagged \<^verbatim>\<open>rx\<close>.
\<close>

definition pair_type :: rtype where
  "pair_type = KStruct ''pair'' False False
     [StructField ''K'' True False [(''rx'', ''k'')] KString,
      StructField ''V'' True False [(''rx'', ''v'')] KString]"

definition address_fields :: "StructField list" where
  "address_fields =
     [StructField ''City'' True False [(''rx'', ''city'')] KString,
      StructField ''Country'' True False [(''rx'', ''country'')] KString]"

definition person_deep :: rtype where
  "person_deep = KStruct ''person'' False False
     [StructField ''Name'' True False [(''rx'', ''name'')] KString,
      StructField ''Address'' True False [(''rx'', ''address'')]
        (KStruct [] False False address_fields)]"

definition person_ptr :: rtype where
  "person_ptr = KStruct ''person'' False False
     [StructField ''Name'' True False [(''rx'', ''name'')] KString,
      StructField ''Address'' True True []
        (KPtr (KStruct ''Address'' False False address_fields))]"

definition person_tagged_ptr :: rtype where
  "person_tagged_ptr = KStruct ''person'' False False
     [StructField ''Home'' True False [(''rx'', ''home'')]
        (KPtr (KStruct ''Address'' False False address_fields)),
      StructField ''Work'' True False []
        (KPtr (KStruct ''Address'' False False address_fields))]"

definition keyed_note :: rtype where
  "keyed_note = KStruct ''keyed'' False False
     [StructField ''K'' True False [(''rx'', ''k'')] KString,
      StructField ''Note'' True False [] KString]"

definition untagged :: rtype where
  "untagged = KStruct ''untagged'' False False
     [StructField ''A'' True False [(''json'', ''a'')] KString,
      StructField ''B'' True False []
        (KPtr (KStruct ''inner'' False False [StructField ''C'' True False [] KString]))]"

text \<open>
  Stand-ins for the compiled patterns of the examples. A greedy \<^verbatim>\<open>.*\<close> before a literal
  separator takes everything up to the last occurrence of the separator that leaves a
  match for the rest, and \<^verbatim>\<open>.\<close> does not match a newline: \<open>kv_find\<close> answers as
  \<^verbatim>\<open>^(?P<k>.*)=(?P<v>.*)$\<close> does, \<open>person_find\<close> as a pattern of three such groups
  separated by \<^verbatim>\<open>" / "\<close>. Both patterns are anchored, so there is at most one match.
\<close>

fun split_first :: "string \<Rightarrow> string \<Rightarrow> (string \<times> string) option" where
  "split_first sep [] = (if sep = [] then Some ([], []) else None)"
| "split_first sep (c # cs) =
     (if take (length sep) (c # cs) = sep then Some ([], drop (length sep) (c # cs))
      else (case split_first sep cs of None \<Rightarrow> None | Some (a, b) \<Rightarrow> Some (c # a, b)))"

definition split_last :: "string \<Rightarrow> string \<Rightarrow> (string \<times> string) option" where
  "split_last sep s =
     (case split_first (rev sep) (rev s) of None \<Rightarrow> None | Some (a, b) \<Rightarrow> Some (rev b, rev a))"

definition kv_find :: "string \<Rightarrow> string list option" where
  "kv_find s =
     (if CHR 0x0A \<in> set s then None
      else (case split_last ''='' s of None \<Rightarrow> None | Some (k, v) \<Rightarrow> Some [s, k, v]))"

definition person_find :: "string \<Rightarrow> string list option" where
  "person_find s =
     (if CHR 0x0A \<in> set s then None
      else (case split_last '' / '' s of
              None \<Rightarrow> None
            | Some (a, country) \<Rightarrow>
                (case split_last '' / '' a of
                   None \<Rightarrow> None
                 | Some (name, city) \<Rightarrow> Some [s, name, city, country])))"

definition anchored :: "string list \<Rightarrow> (string \<Rightarrow> string list option) \<Rightarrow> regexp" where
  "anchored names f =
     \<lparr>SubexpNames = names,
      FindStringSubmatch = f,
      FindAllStringSubmatch =
        (\<lambda>s n. if n = 0 then None else (case f s of None \<Rightarrow> None | Some m \<Rightarrow> Some [m]))\<rparr>"

definition kv_regexp :: regexp where
  "kv_regexp = anchored ['''', ''k'', ''v''] kv_find"

definition deep_regexp :: regexp where
  "deep_regexp = anchored ['''', ''name'', ''address__city'', ''address__country''] person_find"

definition flat_regexp :: regexp where
  "flat_regexp = anchored ['''', ''name'', ''city'', ''country''] person_find"

text \<open>\<open>whole_find\<close> answers as \<^verbatim>\<open>^(?P<home>.*)$\<close> does.\<close>

definition whole_find :: "string \<Rightarrow> string list option" where
  "whole_find s = (if CHR 0x0A \<in> set s then None else Some [s, s])"

definition home_regexp :: regexp where
  "home_regexp = anchored ['''', ''home''] whole_find"

definition example_Compile :: "string \<Rightarrow> string + regexp" where
  "example_Compile expr =
     (if expr = ''^(?P<k>.*)=(?P<v>.*)$'' then Inr kv_regexp
      else if expr = ''^(?P<name>.*) / (?P<address__city>.*) / (?P<address__country>.*)$''
        then Inr deep_regexp
      else if expr = ''^(?P<name>.*) / (?P<city>.*) / (?P<country>.*)$''
        then Inr flat_regexp
      else if expr = ''^(?P<home>.*)$'' then Inr home_regexp
      else Inl ''unsupported pattern'')"

text \<open>The matchers \<open>Compile\<close> builds for \<open>pair_type\<close> and \<open>keyed_note\<close>.\<close>

definition pair_matcher :: Regexp where
  "pair_matcher =
     \<lparr>re = kv_regexp, captures = [Capture 1 [FieldStep 0], Capture 2 [FieldStep 1]]\<rparr>"

definition keyed_matcher :: Regexp where
  "keyed_matcher = \<lparr>re = kv_regexp, captures = [Capture 1 [FieldStep 0]]\<rparr>"

text \<open>
  A struct with an embedded member and a later sibling that resolve the same name, and a
  struct that embeds a pointer to an unexported type.
\<close>

definition person_collide :: rtype where
  "person_collide = KStruct ''person'' False False
     [StructField ''address'' False True [] (KStruct ''address'' False False address_fields),
      StructField ''Town'' True False [(''rx'', ''city'')] KString]"

definition person_ptr_unexported :: rtype where
  "person_ptr_unexported = KStruct ''person'' False False
     [StructField ''Name'' True False [(''rx'', ''name'')] KString,
      StructField ''address'' False True []
        (KPtr (KStruct ''address'' False False address_fields))]"

definition flat_ptr_matcher :: Regexp where
  "flat_ptr_matcher =
     \<lparr>re = flat_regexp,
      captures = [Capture 1 [FieldStep 0],
                  Capture 2 [FieldStep 1, ElemStep, FieldStep 0],
                  Capture 3 [FieldStep 1, ElemStep, FieldStep 1]]\<rparr>"

definition home_matcher :: Regexp where
  "home_matcher = \<lparr>re = home_regexp, captures = [Capture 1 [FieldStep 0]]\<rparr>"

section \<open>An invariant of the field maps\<close>

text \<open>The keys of a map are pairwise distinct.\<close>

definition distinctKeys :: "fieldmap \<Rightarrow> bool" where
  "distinctKeys fm = distinct (map fst (entries fm))"

section \<open>Field maps: lookup, distinct keys, the last field wins\<close>

text \<open>
  Assignment and wrapping seen through \<open>lookup\<close>; every map \<open>extractFields\<close> builds has
  distinct keys, so a \<^verbatim>\<open>range\<close> loop that assigns one key per entry acts on the map as a
  whole, whatever the order of the visit.
\<close>

lemma entries_simps [simp]: "entries None = []" "entries (Some m) = m"
  by (simp_all add: entries_def)

lemma lookup_None [simp]: "lookup None n = None"
  by (simp add: lookup_def)

lemma lookup_assign: "lookup (assign fm k g) n = (if n = k then Some g else lookup fm n)"
  by (simp add: lookup_def assign_def update_conv')

lemma distinctKeys_None [simp]: "distinctKeys None"
  by (simp add: distinctKeys_def)

lemma distinctKeys_Some_Nil [simp]: "distinctKeys (Some [])"
  by (simp add: distinctKeys_def)

lemma distinctKeys_assign: "distinctKeys fm \<Longrightarrow> distinctKeys (assign fm k g)"
  by (simp add: distinctKeys_def assign_def distinct_update)

lemma distinctKeys_fold_assign:
  "distinctKeys fm \<Longrightarrow>
   distinctKeys (fold (\<lambda>(name, g) fm. assign fm (kf name) (gf g)) xs fm)"
  by (induction xs arbitrary: fm) (auto simp: distinctKeys_assign)

lemma entries_wrapFields:
  "entries (wrapFields fm w) = map (\<lambda>(name, inner). (name, w @ inner)) (entries fm)"
  by (cases fm) (simp_all add: wrapFields_def)

lemma keys_wrapFields: "map fst (entries (wrapFields fm w)) = map fst (entries fm)"
  by (simp add: entries_wrapFields comp_def case_prod_unfold)

lemma distinctKeys_wrapFields: "distinctKeys fm \<Longrightarrow> distinctKeys (wrapFields fm w)"
  by (simp add: distinctKeys_def keys_wrapFields)

lemma map_of_map_snd:
  "map_of (map (\<lambda>(name, g). (name, f g)) xs) n = map_option f (map_of xs n)"
  by (induction xs) auto

lemma lookup_wrapFields: "lookup (wrapFields fm w) n = map_option ((@) w) (lookup fm n)"
  by (simp add: lookup_def entries_wrapFields map_of_map_snd)

lemma lookup_fold_assign:
  assumes "distinct (map fst xs)" and "inj kf"
  shows "lookup (fold (\<lambda>(name, g) fm. assign fm (kf name) (gf g)) xs fm) n =
           (case map_of (map (\<lambda>(name, g). (kf name, gf g)) xs) n of
              Some p \<Rightarrow> Some p
            | None \<Rightarrow> lookup fm n)"
  using assms(1)
proof (induction xs arbitrary: fm)
  case Nil
  then show ?case by simp
next
  case (Cons x xs)
  obtain a b where x: "x = (a, b)" by (cases x)
  from Cons.prems x have notin: "a \<notin> fst ` set xs" and d: "distinct (map fst xs)" by auto
  have none: "map_of (map (\<lambda>(name, g). (kf name, gf g)) xs) (kf a) = None"
  proof -
    have "kf a \<notin> fst ` set (map (\<lambda>(name, g). (kf name, gf g)) xs)"
      using notin assms(2) by (force simp: inj_eq)
    then show ?thesis by (simp add: map_of_eq_None_iff)
  qed
  show ?case
    using Cons.IH [OF d, of "assign fm (kf a) (gf b)"] none
    by (simp add: x lookup_assign split: option.splits)
qed

text \<open>Two visits of the same entries in different orders build the same map.\<close>

lemma lookup_fold_assign_order:
  assumes "distinct (map fst xs)" and "distinct (map fst ys)" and "set xs = set ys"
      and "inj kf"
  shows "lookup (fold (\<lambda>(name, g) fm. assign fm (kf name) (gf g)) xs fm) n =
         lookup (fold (\<lambda>(name, g) fm. assign fm (kf name) (gf g)) ys fm) n"
proof -
  let ?h = "\<lambda>(name, g). (kf name, gf g)"
  have k: "\<And>zs. map fst (map ?h zs) = map kf (map fst zs)"
    by (simp add: comp_def case_prod_unfold)
  have dk: "\<And>zs. distinct zs \<Longrightarrow> distinct (map kf zs)"
    by (simp add: distinct_map inj_on_subset [OF assms(4)])
  have dx: "distinct (map fst (map ?h xs))"
    unfolding k by (rule dk [OF assms(1)])
  have dy: "distinct (map fst (map ?h ys))"
    unfolding k by (rule dk [OF assms(2)])
  have "set (map ?h xs) = set (map ?h ys)" using assms(3) by simp
  then have "map_of (map ?h xs) = map_of (map ?h ys)"
    using map_of_inject_set [OF dx dy] by simp
  then show ?thesis
    by (simp add: lookup_fold_assign [OF assms(1,4)] lookup_fold_assign [OF assms(2,4)])
qed

lemma distinctKeys_extract:
  "distinctKeys (extractFields t tagName)"
  "distinctKeys fm \<Longrightarrow> distinctKeys (extractLoop fs i tagName fm)"
  "distinctKeys fm \<Longrightarrow> distinctKeys (extractField f i tagName fm)"
proof (induction t tagName and fs i tagName fm and f i tagName fm
       rule: extractFields_extractLoop_extractField.induct)
  case (1 t tagName)
  then show ?case by (simp add: distinctKeys_wrapFields)
next
  case (2 n s u fs tagName)
  then show ?case by simp
next
  case (3 tagName)
  then show ?case by simp
next
  case (4 tagName)
  then show ?case by simp
next
  case (5 i tagName fields)
  then show ?case by simp
next
  case (6 f fs i tagName fields)
  then show ?case by simp
next
  case (7 nm ex an tg ty index tagName fields)
  then show ?case
    by (auto simp: Let_def distinctKeys_wrapFields distinctKeys_assign
          distinctKeys_fold_assign [where gf = "\<lambda>g. g" and kf = "\<lambda>n. n", simplified]
          distinctKeys_fold_assign [where gf = "\<lambda>g. FieldStep index # g"]
          split: prod.splits)
qed


text \<open>
  What one field adds does not depend on the map built so far: the body of the loop
  overrides that map with the field's own entries. Hence the map of a struct holds, for
  each name, the entry of the last field that has one.
\<close>

lemma inj_composite: "inj (\<lambda>name. tag @ ''__'' @ name)"
  by (simp add: inj_def)

lemma lookup_Some_Nil [simp]: "lookup (Some []) n = None"
  by (simp add: lookup_def)

lemma lookup_map_of: "map_of (entries fm) n = lookup fm n"
  by (simp add: lookup_def)

lemma map_of_ident: "map_of (map (\<lambda>(name, g). (name, g)) xs) = map_of xs"
  by (simp add: case_prod_unfold)

lemma extractField_over:
  "lookup (extractField f i tagName fm) n =
     (case lookup (extractField f i tagName None) n of
        Some p \<Rightarrow> Some p
      | None \<Rightarrow> lookup fm n)"
proof (cases f)
  case (StructField nm ex an tg ty)
  obtain tag ok where lk: "Lookup tg tagName = (tag, ok)" by (cases "Lookup tg tagName")
  have d: "distinct (map fst (entries (extractFields ty tagName)))"
    using distinctKeys_extract(1) [of ty tagName] by (simp add: distinctKeys_def)
  have dw: "distinct (map fst (entries (wrapFields (extractFields ty tagName) [FieldStep i])))"
    using d by (simp add: keys_wrapFields)
  have base: "lookup (if fm = None then Some [] else fm) n = lookup fm n"
    by simp
  show ?thesis
  proof (cases "ok \<and> tag \<noteq> []")
    case True
    show ?thesis
    proof (cases "isStruct ty")
      case True
      let ?f = "\<lambda>(name, g) fields. assign fields (tag @ ''__'' @ name) (FieldStep i # g)"
      let ?xs = "entries (extractFields ty tagName)"
      have F: "\<And>fm0. lookup (fold ?f ?xs fm0) n =
                 (case map_of (map (\<lambda>(name, g). (tag @ ''__'' @ name, FieldStep i # g)) ?xs) n of
                    Some p \<Rightarrow> Some p
                  | None \<Rightarrow> lookup fm0 n)"
        by (rule lookup_fold_assign [OF d inj_composite])
      have eq1: "extractField f i tagName fm = fold ?f ?xs (if fm = None then Some [] else fm)"
        using True \<open>ok \<and> tag \<noteq> []\<close> by (simp add: StructField lk Let_def)
      have eq2: "extractField f i tagName None = fold ?f ?xs (Some [])"
        using True \<open>ok \<and> tag \<noteq> []\<close> by (simp add: StructField lk Let_def)
      show ?thesis
        unfolding eq1 eq2 F base by (simp split: option.splits)
    next
      case False
      with \<open>ok \<and> tag \<noteq> []\<close> show ?thesis
        by (simp add: StructField lk Let_def lookup_assign)
    qed
  next
    case False
    show ?thesis
    proof (cases an)
      case True
      with False show ?thesis
        using lookup_fold_assign [OF dw, of "\<lambda>n. n" "\<lambda>g. g" fm n]
        by (auto simp: StructField lk Let_def map_of_ident lookup_map_of inj_def
              split: option.splits)
    next
      case False
      with \<open>\<not> (ok \<and> tag \<noteq> [])\<close> show ?thesis
        by (auto simp: StructField lk)
    qed
  qed
qed

lemma extractLoop_skip:
  "(\<forall>k<length fs. lookup (extractField (fs ! k) (i + k) tagName None) n = None) \<Longrightarrow>
   lookup (extractLoop fs i tagName fm) n = lookup fm n"
proof (induction fs arbitrary: i fm)
  case Nil
  then show ?case by simp
next
  case (Cons f fs)
  have here: "lookup (extractField f i tagName None) n = None"
    using Cons.prems [rule_format, of 0] by simp
  have rest: "\<forall>k<length fs. lookup (extractField (fs ! k) (Suc i + k) tagName None) n = None"
    using Cons.prems by (auto dest: spec [where x = "Suc k" for k])
  show ?case
    using Cons.IH [OF rest, of "extractField f i tagName fm"] here
    by (simp add: extractField_over [of f i tagName fm n])
qed

lemma extractLoop_last:
  "j < length fs \<Longrightarrow>
   lookup (extractField (fs ! j) (i + j) tagName None) n = Some p \<Longrightarrow>
   (\<forall>k. j < k \<and> k < length fs \<longrightarrow>
        lookup (extractField (fs ! k) (i + k) tagName None) n = None) \<Longrightarrow>
   lookup (extractLoop fs i tagName fm) n = Some p"
proof (induction fs arbitrary: i j fm)
  case Nil
  then show ?case by simp
next
  case (Cons f fs)
  show ?case
  proof (cases j)
    case 0
    have here: "lookup (extractField f i tagName fm) n = Some p"
      using Cons.prems(2) 0 by (simp add: extractField_over [of f i tagName fm n])
    have rest: "\<forall>k<length fs. lookup (extractField (fs ! k) (Suc i + k) tagName None) n = None"
      using Cons.prems(3) 0 by (auto dest: spec [where x = "Suc k" for k])
    show ?thesis
      using extractLoop_skip [OF rest, of "extractField f i tagName fm"] here by simp
  next
    case (Suc j')
    have a: "j' < length fs" using Cons.prems(1) Suc by simp
    have b: "lookup (extractField (fs ! j') (Suc i + j') tagName None) n = Some p"
      using Cons.prems(2) Suc by simp
    have c: "\<forall>k. j' < k \<and> k < length fs \<longrightarrow>
               lookup (extractField (fs ! k) (Suc i + k) tagName None) n = None"
      using Cons.prems(3) Suc by (auto dest: spec [where x = "Suc k" for k])
    show ?thesis
      using Cons.IH [OF a b c, of "extractField f i tagName fm"] by simp
  qed
qed

lemma extractLoop_keeps:
  "lookup fm n \<noteq> None \<Longrightarrow> lookup (extractLoop fs i tagName fm) n \<noteq> None"
proof (induction fs arbitrary: i fm)
  case Nil
  then show ?case by simp
next
  case (Cons f fs)
  have "lookup (extractField f i tagName fm) n \<noteq> None"
    using Cons.prems by (simp add: extractField_over [of f i tagName fm n] split: option.splits)
  then show ?case using Cons.IH by simp
qed

lemma extractLoop_some:
  "j < length fs \<Longrightarrow>
   lookup (extractField (fs ! j) (i + j) tagName None) n \<noteq> None \<Longrightarrow>
   lookup (extractLoop fs i tagName fm) n \<noteq> None"
proof (induction fs arbitrary: i j fm)
  case Nil
  then show ?case by simp
next
  case (Cons f fs)
  show ?case
  proof (cases j)
    case 0
    have "lookup (extractField f i tagName fm) n \<noteq> None"
      using Cons.prems(2) 0
      by (auto simp: extractField_over [of f i tagName fm n] split: option.splits)
    then show ?thesis using extractLoop_keeps by simp
  next
    case (Suc j')
    then show ?thesis using Cons.IH [of j' "Suc i"] Cons.prems by simp
  qed
qed

lemma map_of_map_inj:
  "inj kf \<Longrightarrow>
   map_of (map (\<lambda>(name, g). (kf name, gf g)) xs) (kf n) = map_option gf (map_of xs n)"
  by (induction xs) (auto simp: inj_eq)

lemma contrib_tagged_struct:
  assumes "Lookup tg tagName = (tag, True)" and "tag \<noteq> []" and "isStruct ty"
  shows "lookup (extractField (StructField nm ex an tg ty) i tagName fm) (tag @ ''__'' @ name) =
           (case lookup (extractFields ty tagName) name of
              Some g \<Rightarrow> Some (FieldStep i # g)
            | None \<Rightarrow> lookup fm (tag @ ''__'' @ name))"
proof -
  let ?f = "\<lambda>(name, g) fields. assign fields (tag @ ''__'' @ name) (FieldStep i # g)"
  let ?xs = "entries (extractFields ty tagName)"
  have d: "distinct (map fst ?xs)"
    using distinctKeys_extract(1) [of ty tagName] by (simp add: distinctKeys_def)
  have F: "\<And>fm0 k. lookup (fold ?f ?xs fm0) k =
             (case map_of (map (\<lambda>(name, g). (tag @ ''__'' @ name, FieldStep i # g)) ?xs) k of
                Some p \<Rightarrow> Some p
              | None \<Rightarrow> lookup fm0 k)"
    by (rule lookup_fold_assign [OF d inj_composite])
  have M: "map_of (map (\<lambda>(name, g). (tag @ ''__'' @ name, FieldStep i # g)) ?xs)
             (tag @ ''__'' @ name) = map_option ((#) (FieldStep i)) (map_of ?xs name)"
    by (rule map_of_map_inj [OF inj_composite])
  have eq1: "extractField (StructField nm ex an tg ty) i tagName fm =
               fold ?f ?xs (if fm = None then Some [] else fm)"
    using assms by (simp add: Let_def)
  have base: "lookup (if fm = None then Some [] else fm) (tag @ ''__'' @ name)
                = lookup fm (tag @ ''__'' @ name)"
    by simp
  show ?thesis
    unfolding eq1 F M base lookup_map_of by (simp split: option.splits)
qed

lemma append_single: "(@) [x] = (#) x"
  by (rule ext) simp

lemma contrib_embedded:
  assumes "Lookup tg tagName = (tag, ok)" and "\<not> (ok \<and> tag \<noteq> [])"
  shows "lookup (extractField (StructField nm ex True tg ty) i tagName None) n =
           map_option ((#) (FieldStep i)) (lookup (extractFields ty tagName) n)"
  using assms by (auto simp: Let_def lookup_wrapFields append_single)

lemma lookup_extractFields_KPtr:
  "lookup (extractFields (KPtr t) tagName) n =
     map_option ((#) ElemStep) (lookup (extractFields t tagName) n)"
  by (simp add: lookup_wrapFields append_single)

text \<open>Without a tagged field anywhere, nothing is ever assigned.\<close>

lemma no_tag_empty:
  "\<not> carriesTag t tagName \<Longrightarrow> entries (extractFields t tagName) = []"
  "\<not> carriesTagFields fs tagName \<Longrightarrow> entries fm = [] \<Longrightarrow>
     entries (extractLoop fs i tagName fm) = []"
  "\<not> carriesTagFields [f] tagName \<Longrightarrow> entries fm = [] \<Longrightarrow>
     entries (extractField f i tagName fm) = []"
proof (induction t tagName and fs i tagName fm and f i tagName fm
       rule: extractFields_extractLoop_extractField.induct)
  case (1 t tagName)
  then show ?case by (simp add: entries_wrapFields)
next
  case (2 n s u fs tagName)
  then show ?case by simp
next
  case (3 tagName)
  then show ?case by simp
next
  case (4 tagName)
  then show ?case by simp
next
  case (5 i tagName fields)
  then show ?case by simp
next
  case (6 f fs i tagName fields)
  then show ?case by (cases f) auto
next
  case (7 nm ex an tg ty index tagName fields)
  then show ?case
    by (cases "Lookup tg tagName") (auto simp: Let_def entries_wrapFields)
qed

text \<open>The loop of \<open>Compile\<close> as a filter over the ordinals.\<close>

lemma bindLoop_eq:
  "bindLoop (drop i names) i fm acc =
     acc @ map (\<lambda>j. Capture j (the (lookup fm (names ! j))))
            (filter (\<lambda>j. names ! j \<noteq> [] \<and> lookup fm (names ! j) \<noteq> None) [i..<length names])"
proof (induction "length names - i" arbitrary: i acc)
  case 0
  then show ?case by simp
next
  case (Suc d)
  then have lt: "i < length names" by simp
  have dr: "drop i names = names ! i # drop (Suc i) names"
    using lt by (simp add: Cons_nth_drop_Suc)
  have up: "[i..<length names] = i # [Suc i..<length names]"
    using lt by (simp add: upt_conv_Cons)
  have d: "d = length names - Suc i" using Suc.hyps(2) by simp
  show ?case
    using Suc.hyps(1) [OF d]
    by (auto simp: dr up split: option.splits)
qed

section \<open>Places in a value: what a write leaves alone\<close>

text \<open>
  A write at place \<open>p\<close> leaves every place alone that neither leads to \<open>p\<close> nor lies
  at or below it; the allocation of a pointee replaces a nil pointer, below which there
  was nothing. A getter moves the \<^verbatim>\<open>reflect.Value\<close> along its own steps and allocates
  only on the way.
\<close>

lemma load_append:
  "load (p @ q) st = (case load p st of None \<Rightarrow> None | Some v \<Rightarrow> load q v)"
  by (induction p st rule: load.induct) auto

lemma store_at_append:
  "store_at (p @ q) x st =
     (case load p st of
        None \<Rightarrow> None
      | Some v \<Rightarrow> (case store_at q x v of None \<Rightarrow> None | Some v' \<Rightarrow> store_at p v' st))"
  by (induction p x st rule: store_at.induct) (auto split: option.splits)

lemma load_store_at: "store_at p x st = Some st' \<Longrightarrow> load p st' = Some x"
  by (induction p x st arbitrary: st' rule: store_at.induct) (auto split: option.splits if_splits)

lemma store_at_same: "load p st = Some x \<Longrightarrow> store_at p x st = Some st"
  by (induction p x st rule: store_at.induct) (auto split: option.splits if_splits)

lemma store_at_defined: "load p st = Some y \<Longrightarrow> \<exists>st'. store_at p x st = Some st'"
  by (induction p x st rule: store_at.induct) (auto split: option.splits if_splits)

lemma store_at_twice: "store_at p a st = Some st1 \<Longrightarrow> store_at p b st1 = store_at p b st"
  by (induction p a st arbitrary: st1 rule: store_at.induct) (auto split: option.splits if_splits)

lemma store_at_diverge:
  "store_at p x st = Some st' \<Longrightarrow> \<not> prefix l p \<Longrightarrow> \<not> prefix p l \<Longrightarrow> load l st' = load l st"
proof (induction p x st arbitrary: l st' rule: store_at.induct)
  case (1 x v)
  then show ?case by simp
next
  case (2 i p x vs)
  from "2.prems"(1) obtain y where i: "i < length vs"
    and y: "store_at p x (vs ! i) = Some y" and st': "st' = VStruct (vs[i := y])"
    by (auto split: if_splits option.splits)
  show ?case
  proof (cases l)
    case Nil
    with "2.prems" show ?thesis by simp
  next
    case (Cons s l')
    show ?thesis
    proof (cases s)
      case (FieldStep j)
      show ?thesis
      proof (cases "j = i")
        case True
        have "load l' y = load l' (vs ! i)"
          using "2.IH" [OF i y] "2.prems"(2,3) Cons FieldStep True by simp
        then show ?thesis using Cons FieldStep True i st' by simp
      next
        case False
        then show ?thesis using Cons FieldStep st' by simp
      qed
    next
      case ElemStep
      then show ?thesis using Cons st' by simp
    qed
  qed
next
  case (3 p x v)
  from "3.prems"(1) obtain y where y: "store_at p x v = Some y" and st': "st' = VPtr (Some y)"
    by (auto split: option.splits)
  show ?case
  proof (cases l)
    case Nil
    with "3.prems" show ?thesis by simp
  next
    case (Cons s l')
    show ?thesis
    proof (cases s)
      case (FieldStep j)
      then show ?thesis using Cons st' by simp
    next
      case ElemStep
      have "load l' y = load l' v"
        using "3.IH" [OF y] "3.prems"(2,3) Cons ElemStep by simp
      then show ?thesis using Cons ElemStep st' by simp
    qed
  qed
qed simp_all

lemma load_below_nil: "q \<noteq> [] \<Longrightarrow> load q (VPtr None) = None"
  by (cases q) auto

lemma store_at_frame:
  assumes "store_at p x st = Some st'" and "load l st = Some y" and "\<not> prefix l p"
      and "\<not> prefix p l \<or> load p st = Some (VPtr None)"
  shows "load l st' = Some y"
proof (cases "prefix p l")
  case False
  then show ?thesis using store_at_diverge [OF assms(1,3)] assms(2) by simp
next
  case True
  then obtain q where l: "l = p @ q" by (auto simp: prefix_def)
  with assms(3) have "q \<noteq> []" by auto
  moreover from True assms(4) have "load p st = Some (VPtr None)" by simp
  ultimately have "load l st = None" by (simp add: l load_append load_below_nil)
  with assms(2) show ?thesis by simp
qed

lemma allocElem_loc: "allocElem (st, v) = Inr (st', v') \<Longrightarrow> loc v' = loc v @ [ElemStep]"
  by (auto simp: allocElem_def Value_IsNil_def Value_Set_New_def Value_Elem_def
        split: sum.splits rtype.splits option.splits val.splits if_splits)

lemma Value_Field_loc: "Value_Field v i = Inr v' \<Longrightarrow> loc v' = loc v @ [FieldStep i]"
  by (auto simp: Value_Field_def split: rtype.splits if_splits)

lemma call_loc: "call g (st, v) = Inr (st', v') \<Longrightarrow> loc v' = loc v @ g"
proof (induction g arbitrary: st v)
  case Nil
  then show ?case by simp
next
  case (Cons s g)
  show ?case
  proof (cases s)
    case (FieldStep i)
    with Cons.prems obtain v1 where a: "Value_Field v i = Inr v1" and b: "call g (st, v1) = Inr (st', v')"
      by (auto split: sum.splits)
    show ?thesis using Cons.IH [OF b] Value_Field_loc [OF a] FieldStep by simp
  next
    case ElemStep
    with Cons.prems obtain st1 v1 where a: "allocElem (st, v) = Inr (st1, v1)"
      and b: "call g (st1, v1) = Inr (st', v')"
      by (auto split: sum.splits)
    show ?thesis using Cons.IH [OF b] allocElem_loc [OF a] ElemStep by simp
  qed
qed

lemma call_append:
  "call (w @ g) sv = (case call w sv of Inl e \<Rightarrow> Inl e | Inr sv' \<Rightarrow> call g sv')"
proof (induction w arbitrary: sv)
  case Nil
  then show ?case by simp
next
  case (Cons s w)
  obtain st v where sv: "sv = (st, v)" by (cases sv)
  show ?case
    by (cases s) (simp_all add: sv Cons.IH split: sum.splits)
qed

lemma allocElem_frame:
  assumes "allocElem (st, v) = Inr (st', v')" and "load l st = Some y" and "\<not> prefix l (loc v)"
  shows "load l st' = Some y"
proof -
  from assms(1) have "st' = st \<or>
      (load (loc v) st = Some (VPtr None) \<and> (\<exists>z. store_at (loc v) z st = Some st'))"
    by (auto simp: allocElem_def Value_IsNil_def Value_Set_New_def Value_Elem_def
          split: sum.splits rtype.splits option.splits val.splits if_splits)
  then show ?thesis
    using assms(2,3) store_at_frame [of "loc v" _ st st' l y] by auto
qed

lemma call_frame:
  "call g (st, v) = Inr (st', v') \<Longrightarrow> load l st = Some y \<Longrightarrow> \<not> prefix l (loc v @ g) \<Longrightarrow>
   load l st' = Some y"
proof (induction g arbitrary: st v)
  case Nil
  then show ?case by simp
next
  case (Cons s g)
  show ?case
  proof (cases s)
    case (FieldStep i)
    with Cons.prems(1) obtain v1 where a: "Value_Field v i = Inr v1"
      and b: "call g (st, v1) = Inr (st', v')"
      by (auto split: sum.splits)
    have "\<not> prefix l (loc v1 @ g)"
      using Cons.prems(3) Value_Field_loc [OF a] FieldStep by simp
    then show ?thesis using Cons.IH [OF b Cons.prems(2)] by simp
  next
    case ElemStep
    with Cons.prems(1) obtain st1 v1 where a: "allocElem (st, v) = Inr (st1, v1)"
      and b: "call g (st1, v1) = Inr (st', v')"
      by (auto split: sum.splits)
    have np: "\<not> prefix l (loc v)"
      using Cons.prems(3) by (auto simp: prefix_def)
    have l1: "load l st1 = Some y" by (rule allocElem_frame [OF a Cons.prems(2) np])
    have "\<not> prefix l (loc v1 @ g)"
      using Cons.prems(3) allocElem_loc [OF a] ElemStep by simp
    then show ?thesis using Cons.IH [OF b l1] by simp
  qed
qed

lemma Value_SetString_frame:
  assumes "Value_SetString v x st = Inr st'" and "load l st = Some y"
      and "\<not> prefix l (loc v)" and "\<not> prefix (loc v) l"
  shows "load l st' = Some y"
proof -
  from assms(1) have "store_at (loc v) (VString x) st = Some st'"
    by (auto simp: Value_SetString_def split: if_splits rtype.splits option.splits)
  then show ?thesis using store_at_diverge [OF _ assms(3,4)] assms(2) by simp
qed

lemma deserialize_frame:
  "deserialize ms cs v st = Inr st' \<Longrightarrow> load l st = Some y \<Longrightarrow>
   (\<forall>c\<in>set cs. \<not> prefix l (loc v @ get c) \<and> \<not> prefix (loc v @ get c) l) \<Longrightarrow>
   load l st' = Some y"
proof (induction cs arbitrary: st)
  case Nil
  then show ?case by simp
next
  case (Cons c cs)
  from Cons.prems(1) obtain st1 v1 st2 where
    a: "call (get c) (st, v) = Inr (st1, v1)" and
    b: "Value_SetString v1 (ms ! index c) st1 = Inr st2" and
    d: "deserialize ms cs v st2 = Inr st'"
    by (auto split: sum.splits if_splits)
  have lv: "loc v1 = loc v @ get c" by (rule call_loc [OF a])
  have n1: "\<not> prefix l (loc v @ get c)" and n2: "\<not> prefix (loc v @ get c) l"
    using Cons.prems(3) by simp_all
  have l1: "load l st1 = Some y" by (rule call_frame [OF a Cons.prems(2) n1])
  have l2: "load l st2 = Some y"
    using Value_SetString_frame [OF b l1] n1 n2 lv by simp
  show ?case using Cons.IH [OF d l2] Cons.prems(3) by simp
qed

section \<open>Running a getter inside a pointee\<close>

text \<open>
  Running a getter, \<^verbatim>\<open>SetString\<close> or \<open>deserialize\<close> on a \<^verbatim>\<open>reflect.Value\<close> that sits at place
  \<open>pre\<close> of the target is running it on the value found at \<open>pre\<close> and putting the
  result back there.
\<close>

lemma relocate_Field:
  "Value_Field (v\<lparr>loc := pre @ loc v\<rparr>) i =
     (case Value_Field v i of Inl e \<Rightarrow> Inl e | Inr v' \<Rightarrow> Inr (v'\<lparr>loc := pre @ loc v'\<rparr>))"
  by (auto simp: Value_Field_def split: rtype.splits)

lemma relocate_allocElem:
  assumes "load pre st = Some sub"
  shows "allocElem (st, v\<lparr>loc := pre @ loc v\<rparr>) =
           (case allocElem (sub, v) of
              Inl e \<Rightarrow> Inl e
            | Inr (sub', v') \<Rightarrow> Inr (the (store_at pre sub' st), v'\<lparr>loc := pre @ loc v'\<rparr>))"
proof (cases "vtyp v")
  case (KPtr t)
  show ?thesis
  proof (cases "load (loc v) sub")
    case None
    then show ?thesis
      using assms KPtr by (simp add: allocElem_def Value_IsNil_def load_append)
  next
    case (Some a)
    show ?thesis
    proof (cases a)
      case (VPtr p)
      show ?thesis
      proof (cases p)
        case None
        show ?thesis
        proof (cases "flagRO v")
          case True
          then show ?thesis
            using assms KPtr Some VPtr None
            by (simp add: allocElem_def Value_IsNil_def Value_Set_New_def load_append flagRO_def)
        next
          case False
          obtain sub1 where s1: "store_at (loc v) (VPtr (Some (zero t))) sub = Some sub1"
            using store_at_defined [OF Some] by blast
          obtain st1 where st1: "store_at pre sub1 st = Some st1"
            using store_at_defined [OF assms] by blast
          have big: "store_at (pre @ loc v) (VPtr (Some (zero t))) st = Some st1"
            using assms s1 st1 by (simp add: store_at_append)
          have l1: "load (loc v) sub1 = Some (VPtr (Some (zero t)))"
            by (rule load_store_at [OF s1])
          have l2: "load (pre @ loc v) st1 = Some (VPtr (Some (zero t)))"
            using load_store_at [OF st1] l1 by (simp add: load_append)
          show ?thesis
            using assms KPtr Some VPtr None False s1 st1 big l1 l2
            by (simp add: allocElem_def Value_IsNil_def Value_Set_New_def Value_Elem_def
                  load_append flagRO_def)
        qed
      next
        case (Some x)
        then show ?thesis
          using assms KPtr \<open>load (loc v) sub = Some a\<close> VPtr store_at_same [OF assms]
          by (simp add: allocElem_def Value_IsNil_def Value_Elem_def load_append)
      qed
    qed (use assms KPtr Some in \<open>simp_all add: allocElem_def Value_IsNil_def load_append\<close>)
  qed
qed (simp_all add: allocElem_def Value_IsNil_def)

lemma relocate_call:
  "load pre st = Some sub \<Longrightarrow>
   call g (st, v\<lparr>loc := pre @ loc v\<rparr>) =
     (case call g (sub, v) of
        Inl e \<Rightarrow> Inl e
      | Inr (sub', v') \<Rightarrow> Inr (the (store_at pre sub' st), v'\<lparr>loc := pre @ loc v'\<rparr>))"
proof (induction g arbitrary: st sub v)
  case Nil
  then show ?case using store_at_same [OF Nil] by simp
next
  case (Cons s g)
  show ?case
  proof (cases s)
    case (FieldStep i)
    show ?thesis
    proof (cases "Value_Field v i")
      case (Inl e)
      then show ?thesis using FieldStep by (simp add: relocate_Field)
    next
      case (Inr v1)
      then show ?thesis using FieldStep Cons.IH [OF Cons.prems, of v1] by (simp add: relocate_Field)
    qed
  next
    case ElemStep
    show ?thesis
    proof (cases "allocElem (sub, v)")
      case (Inl e)
      then show ?thesis using ElemStep by (simp add: relocate_allocElem [OF Cons.prems])
    next
      case (Inr sv)
      obtain sub1 v1 where sv: "sv = (sub1, v1)" by (cases sv)
      obtain st1 where st1: "store_at pre sub1 st = Some st1"
        using store_at_defined [OF Cons.prems] by blast
      have l1: "load pre st1 = Some sub1" by (rule load_store_at [OF st1])
      have tw: "\<And>b. store_at pre b st1 = store_at pre b st" by (rule store_at_twice [OF st1])
      show ?thesis
        using ElemStep Inr sv st1 Cons.IH [OF l1, of v1]
        by (simp add: relocate_allocElem [OF Cons.prems] tw split: sum.splits)
    qed
  qed
qed

lemma relocate_SetString:
  assumes "load pre st = Some sub"
  shows "Value_SetString (v\<lparr>loc := pre @ loc v\<rparr>) x st =
           (case Value_SetString v x sub of
              Inl e \<Rightarrow> Inl e
            | Inr sub' \<Rightarrow> Inr (the (store_at pre sub' st)))"
proof (cases "store_at (loc v) (VString x) sub")
  case None
  then show ?thesis
    using assms
    by (simp add: Value_SetString_def flagRO_def store_at_append split: rtype.splits)
next
  case (Some sub')
  obtain st' where "store_at pre sub' st = Some st'"
    using store_at_defined [OF assms] by blast
  then show ?thesis
    using assms Some
    by (simp add: Value_SetString_def flagRO_def store_at_append split: rtype.splits)
qed

lemma relocate_deserialize:
  "load pre st = Some sub \<Longrightarrow>
   deserialize ms cs (v\<lparr>loc := pre @ loc v\<rparr>) st =
     (case deserialize ms cs v sub of
        Inl e \<Rightarrow> Inl e
      | Inr sub' \<Rightarrow> Inr (the (store_at pre sub' st)))"
proof (induction cs arbitrary: st sub)
  case Nil
  then show ?case using store_at_same [OF Nil] by simp
next
  case (Cons c cs)
  show ?case
  proof (cases "call (get c) (sub, v)")
    case (Inl e)
    then show ?thesis by (simp add: relocate_call [OF Cons.prems])
  next
    case (Inr sv)
    obtain sub1 v1 where sv: "sv = (sub1, v1)" by (cases sv)
    obtain st1 where st1: "store_at pre sub1 st = Some st1"
      using store_at_defined [OF Cons.prems] by blast
    have l1: "load pre st1 = Some sub1" by (rule load_store_at [OF st1])
    have tw1: "\<And>b. store_at pre b st1 = store_at pre b st" by (rule store_at_twice [OF st1])
    show ?thesis
    proof (cases "index c < length ms")
      case False
      then show ?thesis using Inr sv st1 by (simp add: relocate_call [OF Cons.prems])
    next
      case True
      show ?thesis
      proof (cases "Value_SetString v1 (ms ! index c) sub1")
        case (Inl e)
        then show ?thesis
          using Inr sv st1 True
          by (simp add: relocate_call [OF Cons.prems] relocate_SetString [OF l1])
      next
        case (Inr sub2)
        obtain st2 where st2: "store_at pre sub2 st = Some st2"
          using store_at_defined [OF Cons.prems] by blast
        have l2: "load pre st2 = Some sub2" by (rule load_store_at [OF st2])
        have tw2: "\<And>b. store_at pre b st2 = store_at pre b st" by (rule store_at_twice [OF st2])
        show ?thesis
          using \<open>call (get c) (sub, v) = Inr sv\<close> sv st1 True Inr st2 Cons.IH [OF l2]
          by (simp add: relocate_call [OF Cons.prems] relocate_SetString [OF l1] tw1 tw2
                cong: sum.case_cong)
      qed
    qed
  qed
qed

section \<open>The example of the package documentation\<close>

text \<open>
  C1. The struct type \<^verbatim>\<open>pair\<close> has fields \<^verbatim>\<open>K\<close> tagged \<^verbatim>\<open>rx:"k"\<close> and \<^verbatim>\<open>V\<close> tagged \<^verbatim>\<open>rx:"v"\<close>.
  Whenever \<^verbatim>\<open>regexp.Compile\<close> accepts the pattern \<^verbatim>\<open>^(?P<k>.*)=(?P<v>.*)$\<close> and the compiled
  pattern reports the group names \<^verbatim>\<open>"", "k", "v"\<close> and the submatches \<^verbatim>\<open>"a=b", "a", "b"\<close> on
  the input \<^verbatim>\<open>"a=b"\<close>, \<open>Compile\<close> with tag key \<^verbatim>\<open>rx\<close> returns a matcher, and
  \<open>FindStringStruct\<close> on \<^verbatim>\<open>"a=b"\<close> returns true and leaves the target equal to
  \<^verbatim>\<open>{K:"a", V:"b"}\<close>, whatever the two fields held before.
\<close>

theorem C1_pair_scenario:
  assumes "regexp_Compile ''^(?P<k>.*)=(?P<v>.*)$'' = Inr r"
      and "SubexpNames r = ['''', ''k'', ''v'']"
      and "FindStringSubmatch r ''a=b'' = Some [''a=b'', ''a'', ''b'']"
  shows "\<exists>m. Compile regexp_Compile pair_type ''^(?P<k>.*)=(?P<v>.*)$'' ''rx'' = Inr m
           \<and> FindStringStruct pair_type m ''a=b'' (VStruct [VString kold, VString vold])
               = Inr (True, VStruct [VString ''a'', VString ''b''])"
  using assms
  by (simp add: Compile_def pair_type_def Lookup_def entries_def assign_def lookup_def
        FindStringStruct_def root_def Value_Field_def Value_SetString_def flagRO_def)

theorem C1_pair_scenario_witness:
  "example_Compile ''^(?P<k>.*)=(?P<v>.*)$'' = Inr kv_regexp
   \<and> SubexpNames kv_regexp = ['''', ''k'', ''v'']
   \<and> FindStringSubmatch kv_regexp ''a=b'' = Some [''a=b'', ''a'', ''b'']
   \<and> (\<exists>m. Compile example_Compile pair_type ''^(?P<k>.*)=(?P<v>.*)$'' ''rx'' = Inr m
           \<and> FindStringStruct pair_type m ''a=b'' (VStruct [VString ''old'', VString ''x''])
               = Inr (True, VStruct [VString ''a'', VString ''b'']))"
proof -
  have h1: "example_Compile ''^(?P<k>.*)=(?P<v>.*)$'' = Inr kv_regexp"
    by (simp add: example_Compile_def)
  have h2: "SubexpNames kv_regexp = ['''', ''k'', ''v'']"
    by (simp add: kv_regexp_def anchored_def)
  have h3: "FindStringSubmatch kv_regexp ''a=b'' = Some [''a=b'', ''a'', ''b'']"
    by (simp add: kv_regexp_def anchored_def kv_find_def split_last_def)
  from C1_pair_scenario [of example_Compile kv_regexp "''old''" "''x''"] h1 h2 h3
  show ?thesis by blast
qed

section \<open>Names and paths of nested structs\<close>

text \<open>
  C2. Let field \<open>i\<close> of a struct type carry the non-empty tag value \<open>t\<close> and have a
  struct type that is neither a setter nor a text unmarshaler, and let \<open>extractFields\<close>
  on that type produce the name \<open>n\<close> with getter \<open>g\<close>. Then
  \<^item> the loop body for field \<open>i\<close> registers the name \<open>t__n\<close> with the getter that first
    takes field \<open>i\<close> and then runs \<open>g\<close>, whatever the map held before;
  \<^item> \<open>t__n\<close> is a key of the map \<open>extractFields\<close> returns for the enclosing type;
  \<^item> its getter there is the one above, unless a field declared later registers the
    same name (the later assignment then replaces it);
  \<^item> for the type \<^verbatim>\<open>person\<close> of \<^verbatim>\<open>TestDeep\<close> and any pattern whose groups are \<^verbatim>\<open>name\<close>,
    \<^verbatim>\<open>address__city\<close>, \<^verbatim>\<open>address__country\<close> and whose submatches on \<^verbatim>\<open>"X / Y / Z"\<close> are
    \<^verbatim>\<open>X\<close>, \<^verbatim>\<open>Y\<close>, \<^verbatim>\<open>Z\<close>, \<open>FindStringStruct\<close> leaves \<^verbatim>\<open>{Name:"X", Address:{City:"Y", Country:"Z"}}\<close>.
\<close>

theorem C2_nested_composite_names:
  assumes "i < length fs"
      and "fs ! i = StructField nm ex an tg (KStruct tn False False fs2)"
      and "Lookup tg tagName = (t, True)" and "t \<noteq> []"
      and "lookup (extractFields (KStruct tn False False fs2) tagName) n = Some g"
  shows "lookup (extractField (fs ! i) i tagName fm) (t @ ''__'' @ n) = Some (FieldStep i # g)
       \<and> lookup (extractFields (KStruct sn ss su fs) tagName) (t @ ''__'' @ n) \<noteq> None
       \<and> ((\<forall>k. i < k \<and> k < length fs \<longrightarrow>
               lookup (extractField (fs ! k) k tagName None) (t @ ''__'' @ n) = None)
            \<longrightarrow> lookup (extractFields (KStruct sn ss su fs) tagName) (t @ ''__'' @ n)
                  = Some (FieldStep i # g))
       \<and> (\<forall>regexp_Compile expr r.
             regexp_Compile expr = Inr r
             \<and> SubexpNames r = ['''', ''name'', ''address__city'', ''address__country'']
             \<and> FindStringSubmatch r ''X / Y / Z'' = Some [''X / Y / Z'', ''X'', ''Y'', ''Z'']
            \<longrightarrow> (\<exists>m. Compile regexp_Compile person_deep expr ''rx'' = Inr m
                   \<and> FindStringStruct person_deep m ''X / Y / Z'' (zero person_deep)
                       = Inr (True, VStruct [VString ''X'', VStruct [VString ''Y'', VString ''Z'']])))"
proof -
  have c: "\<And>fm. lookup (extractField (fs ! i) i tagName fm) (t @ ''__'' @ n)
                 = Some (FieldStep i # g)"
    using contrib_tagged_struct [of tg tagName t "KStruct tn False False fs2" nm ex an i _ n]
      assms(2-5)
    by simp
  have c0: "lookup (extractField (fs ! i) (0 + i) tagName None) (t @ ''__'' @ n)
              = Some (FieldStep i # g)"
    using c [of None] by simp
  have p2: "lookup (extractFields (KStruct sn ss su fs) tagName) (t @ ''__'' @ n) \<noteq> None"
    using extractLoop_some [OF assms(1), of 0 tagName "t @ ''__'' @ n" None] c0 by simp
  have p3: "(\<forall>k. i < k \<and> k < length fs \<longrightarrow>
               lookup (extractField (fs ! k) k tagName None) (t @ ''__'' @ n) = None)
            \<longrightarrow> lookup (extractFields (KStruct sn ss su fs) tagName) (t @ ''__'' @ n)
                  = Some (FieldStep i # g)"
    using extractLoop_last [OF assms(1) c0, of None] by simp
  have p4: "\<forall>regexp_Compile expr r.
             regexp_Compile expr = Inr r
             \<and> SubexpNames r = ['''', ''name'', ''address__city'', ''address__country'']
             \<and> FindStringSubmatch r ''X / Y / Z'' = Some [''X / Y / Z'', ''X'', ''Y'', ''Z'']
            \<longrightarrow> (\<exists>m. Compile regexp_Compile person_deep expr ''rx'' = Inr m
                   \<and> FindStringStruct person_deep m ''X / Y / Z'' (zero person_deep)
                       = Inr (True, VStruct [VString ''X'', VStruct [VString ''Y'', VString ''Z'']]))"
    by (simp add: Compile_def person_deep_def address_fields_def Lookup_def assign_def
          lookup_def FindStringStruct_def root_def Value_Field_def Value_SetString_def flagRO_def)
  show ?thesis using c [of fm] p2 p3 p4 by blast
qed

theorem C2_nested_composite_names_witness:
  "lookup (extractFields (KStruct [] False False address_fields) ''rx'') ''city''
     = Some [FieldStep 0]
   \<and> lookup (extractFields person_deep ''rx'') (''address'' @ ''__'' @ ''city'')
       = Some [FieldStep 1, FieldStep 0]
   \<and> example_Compile ''^(?P<name>.*) / (?P<address__city>.*) / (?P<address__country>.*)$''
       = Inr deep_regexp
   \<and> FindStringSubmatch deep_regexp ''X / Y / Z'' = Some [''X / Y / Z'', ''X'', ''Y'', ''Z'']
   \<and> (\<exists>m. Compile example_Compile person_deep
             ''^(?P<name>.*) / (?P<address__city>.*) / (?P<address__country>.*)$'' ''rx'' = Inr m
          \<and> FindStringStruct person_deep m ''X / Y / Z'' (zero person_deep)
              = Inr (True, VStruct [VString ''X'', VStruct [VString ''Y'', VString ''Z'']]))"
proof -
  let ?fs = "[StructField ''Name'' True False [(''rx'', ''name'')] KString,
      StructField ''Address'' True False [(''rx'', ''address'')]
        (KStruct [] False False address_fields)]"
  let ?pat = "''^(?P<name>.*) / (?P<address__city>.*) / (?P<address__country>.*)$''"
  have h1: "(1::nat) < length ?fs" by simp
  have h2: "?fs ! 1 = StructField ''Address'' True False [(''rx'', ''address'')]
        (KStruct [] False False address_fields)" by simp
  have h3: "Lookup [(''rx'', ''address'')] ''rx'' = (''address'', True)"
    by (simp add: Lookup_def)
  have h4: "''address'' \<noteq> []" by simp
  have h5: "lookup (extractFields (KStruct [] False False address_fields) ''rx'') ''city''
     = Some [FieldStep 0]"
    by (simp add: address_fields_def Lookup_def assign_def lookup_def)
  have h6: "\<forall>k. 1 < k \<and> k < length ?fs \<longrightarrow>
      lookup (extractField (?fs ! k) k ''rx'' None) (''address'' @ ''__'' @ ''city'') = None"
  proof (intro allI impI)
    fix k :: nat
    assume "1 < k \<and> k < length ?fs"
    then have False by auto
    then show "lookup (extractField (?fs ! k) k ''rx'' None) (''address'' @ ''__'' @ ''city'')
                 = None" ..
  qed
  have e1: "example_Compile ?pat = Inr deep_regexp"
    by (simp add: example_Compile_def)
  have e2: "SubexpNames deep_regexp = ['''', ''name'', ''address__city'', ''address__country'']"
    by (simp add: deep_regexp_def anchored_def)
  have e3: "FindStringSubmatch deep_regexp ''X / Y / Z'' = Some [''X / Y / Z'', ''X'', ''Y'', ''Z'']"
    by (simp add: deep_regexp_def anchored_def person_find_def split_last_def)
  note T = C2_nested_composite_names [OF h1 h2 h3 h4 h5, of None "''person''" False False]
  from T h6 have a: "lookup (extractFields person_deep ''rx'') (''address'' @ ''__'' @ ''city'')
       = Some [FieldStep 1, FieldStep 0]"
    unfolding person_deep_def by blast
  from T e1 e2 e3 have b: "\<exists>m. Compile example_Compile person_deep ?pat ''rx'' = Inr m
          \<and> FindStringStruct person_deep m ''X / Y / Z'' (zero person_deep)
              = Inr (True, VStruct [VString ''X'', VStruct [VString ''Y'', VString ''Z'']])"
    by blast
  show ?thesis using h5 a e1 e3 b by blast
qed

section \<open>The bindings of a compiled matcher\<close>

text \<open>
  C3. When \<open>Compile\<close> returns a matcher, its captures are exactly the ordinals
  \<open>1, 2, \<dots>\<close> below the length of \<^verbatim>\<open>SubexpNames()\<close>, in ascending order, whose name is not
  empty and is a key of the map of \<open>extractFields\<close>, each paired with the getter the map
  holds for its name. Ordinal 0 is never bound; an ordinal with an empty or unmapped name
  contributes nothing.
\<close>

theorem C3_bindings_by_ordinal:
  assumes "Compile regexp_Compile T expr structTag = Inr m"
  shows "\<exists>r. regexp_Compile expr = Inr r \<and>
           captures m =
             map (\<lambda>i. Capture i (the (lookup (extractFields T structTag) (SubexpNames r ! i))))
               (filter (\<lambda>i. SubexpNames r ! i \<noteq> []
                          \<and> lookup (extractFields T structTag) (SubexpNames r ! i) \<noteq> None)
                  [1..<length (SubexpNames r)])
           \<and> sorted_wrt (<) (map index (captures m))
           \<and> 0 \<notin> set (map index (captures m))"
proof -
  from assms obtain r where r: "regexp_Compile expr = Inr r"
    and c: "captures m = bindLoop (drop 1 (SubexpNames r)) 1 (extractFields T structTag) []"
    by (auto simp: Compile_def Let_def split: if_splits sum.splits)
  let ?P = "\<lambda>i. SubexpNames r ! i \<noteq> []
                 \<and> lookup (extractFields T structTag) (SubexpNames r ! i) \<noteq> None"
  let ?is = "filter ?P [1..<length (SubexpNames r)]"
  have eq: "captures m =
      map (\<lambda>i. Capture i (the (lookup (extractFields T structTag) (SubexpNames r ! i)))) ?is"
    using c bindLoop_eq [of 1 "SubexpNames r" "extractFields T structTag" "[]"] by simp
  have ix: "map index (captures m) = ?is"
    by (simp add: eq comp_def)
  have s: "sorted_wrt (<) ?is"
    by (rule sorted_wrt_filter) simp
  have z: "0 \<notin> set ?is" by simp
  show ?thesis using r eq s z unfolding ix by blast
qed

theorem C3_bindings_by_ordinal_witness:
  "Compile example_Compile keyed_note ''^(?P<k>.*)=(?P<v>.*)$'' ''rx'' = Inr keyed_matcher
   \<and> example_Compile ''^(?P<k>.*)=(?P<v>.*)$'' = Inr kv_regexp
   \<and> SubexpNames kv_regexp = ['''', ''k'', ''v'']
   \<and> lookup (extractFields keyed_note ''rx'') ''k'' = Some [FieldStep 0]
   \<and> lookup (extractFields keyed_note ''rx'') ''v'' = None
   \<and> captures keyed_matcher = [Capture 1 [FieldStep 0]]
   \<and> (\<exists>r. example_Compile ''^(?P<k>.*)=(?P<v>.*)$'' = Inr r \<and>
           captures keyed_matcher =
             map (\<lambda>i. Capture i (the (lookup (extractFields keyed_note ''rx'') (SubexpNames r ! i))))
               (filter (\<lambda>i. SubexpNames r ! i \<noteq> []
                          \<and> lookup (extractFields keyed_note ''rx'') (SubexpNames r ! i) \<noteq> None)
                  [1..<length (SubexpNames r)])
           \<and> sorted_wrt (<) (map index (captures keyed_matcher))
           \<and> 0 \<notin> set (map index (captures keyed_matcher)))"
proof -
  have h: "Compile example_Compile keyed_note ''^(?P<k>.*)=(?P<v>.*)$'' ''rx'' = Inr keyed_matcher"
    by (simp add: Compile_def example_Compile_def keyed_matcher_def kv_regexp_def anchored_def
          keyed_note_def Lookup_def assign_def lookup_def)
  have e1: "example_Compile ''^(?P<k>.*)=(?P<v>.*)$'' = Inr kv_regexp"
    by (simp add: example_Compile_def)
  have e2: "SubexpNames kv_regexp = ['''', ''k'', ''v'']"
    by (simp add: kv_regexp_def anchored_def)
  have e3: "lookup (extractFields keyed_note ''rx'') ''k'' = Some [FieldStep 0]"
    by (simp add: keyed_note_def Lookup_def assign_def lookup_def)
  have e4: "lookup (extractFields keyed_note ''rx'') ''v'' = None"
    by (simp add: keyed_note_def Lookup_def assign_def lookup_def)
  have e5: "captures keyed_matcher = [Capture 1 [FieldStep 0]]"
    by (simp add: keyed_matcher_def)
  from C3_bindings_by_ordinal [OF h] h e1 e2 e3 e4 e5 show ?thesis by blast
qed

section \<open>No match\<close>

text \<open>
  C4. When \<^verbatim>\<open>FindAllStringSubmatch\<close> reports no match (it returns nil),
  \<open>FindAllStringStruct\<close> returns without panic, and what it returns is the nil slice: a
  slice of length 0. No record is built.
\<close>

theorem C4_find_all_no_match:
  assumes "FindAllStringSubmatch (re m) s n = None"
  shows "\<exists>r. FindAllStringStruct T m s n = Inr r \<and> r = NilSlice \<and> len r = 0"
  using assms by (simp add: FindAllStringStruct_def)

theorem C4_find_all_no_match_witness:
  "FindAllStringSubmatch (re pair_matcher) ''no equals sign'' (- 1) = None
   \<and> (\<exists>r. FindAllStringStruct pair_type pair_matcher ''no equals sign'' (- 1) = Inr r
          \<and> r = NilSlice \<and> len r = 0)"
proof -
  have h: "FindAllStringSubmatch (re pair_matcher) ''no equals sign'' (- 1) = None"
    by (simp add: pair_matcher_def kv_regexp_def anchored_def kv_find_def split_last_def)
  from C4_find_all_no_match [OF h, of pair_type] h show ?thesis by blast
qed

text \<open>
  C5, as the specification states it, says that after a call of \<open>FindStringStruct\<close> that
  finds no match the record is zero-valued. The record is the caller's: for the matcher of
  \<^verbatim>\<open>pair\<close>, the input \<^verbatim>\<open>"ab"\<close> and a target holding \<^verbatim>\<open>{K:"old", V:""}\<close>, the call returns false
  and the target still holds \<^verbatim>\<open>{K:"old", V:""}\<close>, which is not the zero value of \<^verbatim>\<open>pair\<close>.
\<close>

theorem C5_not_zeroed_counterexample:
  "Compile example_Compile pair_type ''^(?P<k>.*)=(?P<v>.*)$'' ''rx'' = Inr pair_matcher
   \<and> FindStringSubmatch (re pair_matcher) ''ab'' = None
   \<and> FindStringStruct pair_type pair_matcher ''ab'' (VStruct [VString ''old'', VString []])
       = Inr (False, VStruct [VString ''old'', VString []])
   \<and> VStruct [VString ''old'', VString []] \<noteq> zero pair_type"
  by (simp add: Compile_def example_Compile_def pair_matcher_def kv_regexp_def anchored_def
        kv_find_def split_last_def pair_type_def Lookup_def entries_def assign_def lookup_def
        FindStringStruct_def)

text \<open>
  C5, amended. When \<^verbatim>\<open>FindStringSubmatch\<close> reports no match, \<open>FindStringStruct\<close> returns
  false and the target is exactly what the caller passed: nothing is written, so the
  target is zero-valued if and only if it was before the call.
\<close>

theorem C5_not_matched_leaves_target:
  assumes "FindStringSubmatch (re m) s = None"
  shows "FindStringStruct T m s target = Inr (False, target)"
  using assms by (simp add: FindStringStruct_def)

theorem C5_not_matched_leaves_target_witness:
  "FindStringSubmatch (re pair_matcher) ''ab'' = None
   \<and> FindStringStruct pair_type pair_matcher ''ab'' (zero pair_type)
       = Inr (False, zero pair_type)"
proof -
  have h: "FindStringSubmatch (re pair_matcher) ''ab'' = None"
    by (simp add: pair_matcher_def kv_regexp_def anchored_def kv_find_def split_last_def)
  from C5_not_matched_leaves_target [OF h, of pair_type "zero pair_type"] h
  show ?thesis by blast
qed

section \<open>A type without tagged fields\<close>

text \<open>
  C6. Let \<^verbatim>\<open>T\<close> be a struct type in which no field, searched through nested, embedded
  and pointed-to types, carries a non-empty value under the tag key, and let
  \<^verbatim>\<open>regexp.Compile\<close> accept the pattern. Then \<open>Compile\<close> panics and returns no matcher:
  with \<^verbatim>\<open>type ... has no fields with stuct tag ...\<close>, or with \<^verbatim>\<open>invalid tag name\<close> when the
  tag key itself is empty.
\<close>

theorem C6_no_tagged_field_panics:
  assumes "isStructType T" and "\<not> carriesTag T structTag" and "regexp_Compile expr = Inr r"
  shows "Compile regexp_Compile T expr structTag =
           Inl (if structTag = [] then PanicInvalidTagName else PanicNoFields)"
  using assms no_tag_empty(1) [of T structTag]
  by (simp add: Compile_def Let_def)

theorem C6_no_tagged_field_panics_witness:
  "isStructType untagged \<and> \<not> carriesTag untagged ''rx''
   \<and> example_Compile ''^(?P<k>.*)=(?P<v>.*)$'' = Inr kv_regexp
   \<and> Compile example_Compile untagged ''^(?P<k>.*)=(?P<v>.*)$'' ''rx'' = Inl PanicNoFields"
proof -
  have h1: "isStructType untagged" by (simp add: untagged_def)
  have h2: "\<not> carriesTag untagged ''rx''" by (simp add: untagged_def Lookup_def)
  have h3: "example_Compile ''^(?P<k>.*)=(?P<v>.*)$'' = Inr kv_regexp"
    by (simp add: example_Compile_def)
  from C6_no_tagged_field_panics [of untagged "''rx''" example_Compile _ kv_regexp, OF h1 h2 h3]
    h1 h2 h3
  show ?thesis by simp
qed

section \<open>\<open>FindStringStruct\<close> and \<open>FindAllStringStruct\<close> on the same input\<close>

text \<open>
  C7, as the specification states it, makes the record of \<open>FindStringStruct\<close> equal to the
  first record of \<open>FindAllStringStruct\<close> with limit 1 for every matcher and input. The type
  \<^verbatim>\<open>keyed\<close> has a field \<^verbatim>\<open>K\<close> tagged \<^verbatim>\<open>rx:"k"\<close> and an untagged string field \<^verbatim>\<open>Note\<close>. On the
  input \<^verbatim>\<open>"a=b"\<close> and a target holding \<^verbatim>\<open>{K:"", Note:"kept"}\<close>, \<open>FindStringStruct\<close> leaves
  \<^verbatim>\<open>{K:"a", Note:"kept"}\<close>, while \<open>FindAllStringStruct\<close> returns \<^verbatim>\<open>{K:"a", Note:""}\<close>.
\<close>

theorem C7_caller_target_counterexample:
  "Compile example_Compile keyed_note ''^(?P<k>.*)=(?P<v>.*)$'' ''rx'' = Inr keyed_matcher
   \<and> FindStringStruct keyed_note keyed_matcher ''a=b'' (VStruct [VString [], VString ''kept''])
       = Inr (True, VStruct [VString ''a'', VString ''kept''])
   \<and> FindAllStringStruct keyed_note keyed_matcher ''a=b'' 1
       = Inr (MkSlice [VStruct [VString ''a'', VString []]])"
  by (simp add: Compile_def example_Compile_def keyed_matcher_def kv_regexp_def anchored_def
        kv_find_def split_last_def keyed_note_def Lookup_def entries_def assign_def lookup_def
        FindStringStruct_def FindAllStringStruct_def root_def Value_Field_def
        Value_SetString_def flagRO_def)

text \<open>
  C7, amended. Take an input on which \<^verbatim>\<open>FindStringSubmatch\<close> reports the match \<open>ms\<close> and
  \<^verbatim>\<open>FindAllStringSubmatch\<close> with limit 1 reports that one match. When the target passed to
  \<open>FindStringStruct\<close> is the zero value of \<^verbatim>\<open>T\<close>, the record it leaves equals the first (and
  only) record of \<open>FindAllStringStruct\<close> with limit 1, pointees compared by content; and
  if one of the two calls panics, the other panics the same way.
\<close>

theorem C7_zero_target_agrees:
  assumes "FindStringSubmatch (re m) s = Some ms"
      and "FindAllStringSubmatch (re m) s 1 = Some [ms]"
  shows "(case FindStringStruct T m s (zero T) of
            Inl e \<Rightarrow> FindAllStringStruct T m s 1 = Inl e
          | Inr (matched, x) \<Rightarrow> matched \<and> FindAllStringStruct T m s 1 = Inr (MkSlice [x]))"
  using assms
  by (simp add: FindStringStruct_def FindAllStringStruct_def split: sum.splits)

theorem C7_zero_target_agrees_witness:
  "FindStringSubmatch (re keyed_matcher) ''a=b'' = Some [''a=b'', ''a'', ''b'']
   \<and> FindAllStringSubmatch (re keyed_matcher) ''a=b'' 1 = Some [[''a=b'', ''a'', ''b'']]
   \<and> FindStringStruct keyed_note keyed_matcher ''a=b'' (zero keyed_note)
       = Inr (True, VStruct [VString ''a'', VString []])
   \<and> FindAllStringStruct keyed_note keyed_matcher ''a=b'' 1
       = Inr (MkSlice [VStruct [VString ''a'', VString []]])"
proof -
  have h1: "FindStringSubmatch (re keyed_matcher) ''a=b'' = Some [''a=b'', ''a'', ''b'']"
    by (simp add: keyed_matcher_def kv_regexp_def anchored_def kv_find_def split_last_def)
  have h2: "FindAllStringSubmatch (re keyed_matcher) ''a=b'' 1 = Some [[''a=b'', ''a'', ''b'']]"
    by (simp add: keyed_matcher_def kv_regexp_def anchored_def kv_find_def split_last_def)
  have h3: "FindStringStruct keyed_note keyed_matcher ''a=b'' (zero keyed_note)
       = Inr (True, VStruct [VString ''a'', VString []])"
    using h1
    by (simp add: FindStringStruct_def keyed_matcher_def keyed_note_def root_def
          Value_Field_def Value_SetString_def flagRO_def)
  from C7_zero_target_agrees [OF h1 h2, of keyed_note] h1 h2 h3 show ?thesis by simp
qed

section \<open>Pointer fields\<close>

text \<open>
  C8, as the specification states it, speaks of every field whose type is a pointer to a
  struct. In the type \<^verbatim>\<open>person\<close> with fields \<^verbatim>\<open>Home *Address\<close> tagged \<^verbatim>\<open>rx:"home"\<close> and
  \<^verbatim>\<open>Work *Address\<close> without tag, where \<^verbatim>\<open>Address\<close> has the tagged fields \<^verbatim>\<open>City\<close> and \<^verbatim>\<open>Country\<close>,
  \<open>extractFields\<close> recurses into neither pointer: the map is \<^verbatim>\<open>home\<close> alone, bound to
  field 0 itself with no allocation step, and \<open>FindStringStruct\<close> panics in \<^verbatim>\<open>SetString\<close>
  on the pointer instead of allocating. And for an embedded pointer to an unexported
  type, the paths do carry the allocation step, but on a nil pointer \<^verbatim>\<open>reflect\<close> refuses
  the \<^verbatim>\<open>Set\<close>: \<open>FindStringStruct\<close> panics.
\<close>

theorem C8_pointer_fields_counterexample:
  "extractFields person_tagged_ptr ''rx'' = Some [(''home'', [FieldStep 0])]
   \<and> lookup (extractFields (KStruct ''Address'' False False address_fields) ''rx'') ''city''
       = Some [FieldStep 0]
   \<and> Compile example_Compile person_tagged_ptr ''^(?P<home>.*)$'' ''rx'' = Inr home_matcher
   \<and> FindStringStruct person_tagged_ptr home_matcher ''here'' (zero person_tagged_ptr)
       = Inl PanicValueError
   \<and> Compile example_Compile person_ptr_unexported
         ''^(?P<name>.*) / (?P<city>.*) / (?P<country>.*)$'' ''rx'' = Inr flat_ptr_matcher
   \<and> FindStringStruct person_ptr_unexported flat_ptr_matcher ''X / Y / Z''
         (zero person_ptr_unexported)
       = Inl PanicUnexportedField"
proof -
  have a: "extractFields person_tagged_ptr ''rx'' = Some [(''home'', [FieldStep 0])]"
    by (simp add: person_tagged_ptr_def Lookup_def assign_def)
  have b: "lookup (extractFields (KStruct ''Address'' False False address_fields) ''rx'') ''city''
       = Some [FieldStep 0]"
    by (simp add: address_fields_def Lookup_def assign_def lookup_def)
  have c: "Compile example_Compile person_tagged_ptr ''^(?P<home>.*)$'' ''rx'' = Inr home_matcher"
    by (simp add: Compile_def example_Compile_def home_matcher_def home_regexp_def
          anchored_def lookup_def person_tagged_ptr_def Lookup_def assign_def)
  have d: "FindStringStruct person_tagged_ptr home_matcher ''here'' (zero person_tagged_ptr)
       = Inl PanicValueError"
    by (simp add: FindStringStruct_def home_matcher_def home_regexp_def anchored_def
          whole_find_def person_tagged_ptr_def root_def Value_Field_def Value_SetString_def
          flagRO_def)
  have e: "Compile example_Compile person_ptr_unexported
         ''^(?P<name>.*) / (?P<city>.*) / (?P<country>.*)$'' ''rx'' = Inr flat_ptr_matcher"
    by (simp add: Compile_def example_Compile_def flat_ptr_matcher_def flat_regexp_def
          anchored_def person_ptr_unexported_def address_fields_def Lookup_def assign_def
          lookup_def wrapFields_def)
  have f: "FindStringStruct person_ptr_unexported flat_ptr_matcher ''X / Y / Z''
         (zero person_ptr_unexported) = Inl PanicUnexportedField"
    by (simp add: FindStringStruct_def flat_ptr_matcher_def flat_regexp_def anchored_def
          person_find_def split_last_def person_ptr_unexported_def root_def Value_Field_def
          Value_SetString_def flagRO_def allocElem_def Value_IsNil_def Value_Set_New_def)
  show ?thesis using a b c d e f by blast
qed

text \<open>
  C8, amended. Let field \<open>i\<close> of a struct type be anonymous with no non-empty value
  under the tag key, and let its type be a pointer to \<open>S\<close>. For every name \<open>n\<close> with
  getter \<open>g\<close> that \<open>extractFields\<close> produces on \<open>S\<close>:
  \<^item> the field contributes the name \<open>n\<close>, unprefixed, with the getter that takes field
    \<open>i\<close>, then allocates if the pointer is nil and follows it, then runs \<open>g\<close>; that is
    the getter of \<open>n\<close> in the map of the enclosing type unless a later field registers
    \<open>n\<close> too;
  \<^item> if the field is exported and the pointer in the target is nil, deserializing one
    capture through that getter gives the target with field \<open>i\<close> pointing to the result
    of deserializing the capture through \<open>g\<close> into a fresh zero value of \<open>S\<close> (and panics
    when that panics);
  \<^item> if the field is exported and the pointer is not nil, the same with the existing
    pointee in place of the fresh zero value.
\<close>

theorem C8_embedded_pointer:
  assumes "i < length fs"
      and "fs ! i = StructField nm ex True tg (KPtr S)"
      and "Lookup tg tagName = (t, ok)" and "\<not> (ok \<and> t \<noteq> [])"
      and "lookup (extractFields S tagName) n = Some g"
  shows "lookup (extractField (fs ! i) i tagName None) n = Some (FieldStep i # ElemStep # g)
       \<and> ((\<forall>k. i < k \<and> k < length fs \<longrightarrow>
               lookup (extractField (fs ! k) k tagName None) n = None)
            \<longrightarrow> lookup (extractFields (KStruct sn ss su fs) tagName) n
                  = Some (FieldStep i # ElemStep # g))
       \<and> (ex \<and> i < length vs \<and> vs ! i = VPtr None \<longrightarrow>
            deserialize ms [Capture ord (FieldStep i # ElemStep # g)]
                (root (KStruct sn ss su fs)) (VStruct vs)
              = (case deserialize ms [Capture ord g] (root S) (zero S) of
                   Inl e \<Rightarrow> Inl e
                 | Inr p \<Rightarrow> Inr (VStruct (vs[i := VPtr (Some p)]))))
       \<and> (ex \<and> i < length vs \<and> vs ! i = VPtr (Some q) \<longrightarrow>
            deserialize ms [Capture ord (FieldStep i # ElemStep # g)]
                (root (KStruct sn ss su fs)) (VStruct vs)
              = (case deserialize ms [Capture ord g] (root S) q of
                   Inl e \<Rightarrow> Inl e
                 | Inr p \<Rightarrow> Inr (VStruct (vs[i := VPtr (Some p)]))))"
proof -
  let ?T = "KStruct sn ss su fs"
  let ?pre = "[FieldStep i, ElemStep]"
  let ?v = "(root S)\<lparr>loc := ?pre @ loc (root S)\<rparr>"
  have "lookup (extractField (fs ! i) i tagName None) n
          = map_option ((#) (FieldStep i)) (lookup (extractFields (KPtr S) tagName) n)"
    unfolding assms(2) by (rule contrib_embedded [OF assms(3,4)])
  also have "\<dots> = Some (FieldStep i # ElemStep # g)"
    unfolding lookup_extractFields_KPtr assms(5) by simp
  finally have c: "lookup (extractField (fs ! i) i tagName None) n
                     = Some (FieldStep i # ElemStep # g)" .
  have p2: "(\<forall>k. i < k \<and> k < length fs \<longrightarrow>
               lookup (extractField (fs ! k) k tagName None) n = None)
            \<longrightarrow> lookup (extractFields ?T tagName) n = Some (FieldStep i # ElemStep # g)"
    using extractLoop_last [OF assms(1), of 0 tagName n "FieldStep i # ElemStep # g" None] c
    by simp
  have run: "\<And>st1 sub. ex \<Longrightarrow> i < length vs \<Longrightarrow>
      call ?pre (VStruct vs, root ?T) = Inr (st1, ?v) \<Longrightarrow> load ?pre st1 = Some sub \<Longrightarrow>
      deserialize ms [Capture ord (FieldStep i # ElemStep # g)] (root ?T) (VStruct vs)
        = (case deserialize ms [Capture ord g] (root S) sub of
             Inl e \<Rightarrow> Inl e
           | Inr p \<Rightarrow> Inr (the (store_at ?pre p st1)))"
  proof -
    fix st1 sub
    assume ex and iv: "i < length vs"
      and cl: "call ?pre (VStruct vs, root ?T) = Inr (st1, ?v)"
      and ld: "load ?pre st1 = Some sub"
    have "deserialize ms [Capture ord (FieldStep i # ElemStep # g)] (root ?T) (VStruct vs)
            = deserialize ms [Capture ord g] ?v st1"
    proof -
      have "call (FieldStep i # ElemStep # g) (VStruct vs, root ?T) = call g (st1, ?v)"
        using call_append [of ?pre g "(VStruct vs, root ?T)"] cl by (simp del: call.simps)
      then show ?thesis by (simp del: call.simps split: sum.splits prod.splits)
    qed
    then show "deserialize ms [Capture ord (FieldStep i # ElemStep # g)] (root ?T) (VStruct vs)
        = (case deserialize ms [Capture ord g] (root S) sub of
             Inl e \<Rightarrow> Inl e
           | Inr p \<Rightarrow> Inr (the (store_at ?pre p st1)))"
      using relocate_deserialize [OF ld, of ms "[Capture ord g]" "root S"] by simp
  qed
  have p3: "ex \<and> i < length vs \<and> vs ! i = VPtr None \<longrightarrow>
            deserialize ms [Capture ord (FieldStep i # ElemStep # g)] (root ?T) (VStruct vs)
              = (case deserialize ms [Capture ord g] (root S) (zero S) of
                   Inl e \<Rightarrow> Inl e
                 | Inr p \<Rightarrow> Inr (VStruct (vs[i := VPtr (Some p)])))"
  proof
    assume a: "ex \<and> i < length vs \<and> vs ! i = VPtr None"
    let ?st1 = "VStruct (vs[i := VPtr (Some (zero S))])"
    have cl: "call ?pre (VStruct vs, root ?T) = Inr (?st1, ?v)"
      using a assms(1,2)
      by (simp add: root_def Value_Field_def allocElem_def Value_IsNil_def Value_Set_New_def
            Value_Elem_def flagRO_def)
    have ld: "load ?pre ?st1 = Some (zero S)" using a by simp
    show "deserialize ms [Capture ord (FieldStep i # ElemStep # g)] (root ?T) (VStruct vs)
              = (case deserialize ms [Capture ord g] (root S) (zero S) of
                   Inl e \<Rightarrow> Inl e
                 | Inr p \<Rightarrow> Inr (VStruct (vs[i := VPtr (Some p)])))"
      using run [OF _ _ cl ld] a by (simp cong: sum.case_cong)
  qed
  have p4: "ex \<and> i < length vs \<and> vs ! i = VPtr (Some q) \<longrightarrow>
            deserialize ms [Capture ord (FieldStep i # ElemStep # g)] (root ?T) (VStruct vs)
              = (case deserialize ms [Capture ord g] (root S) q of
                   Inl e \<Rightarrow> Inl e
                 | Inr p \<Rightarrow> Inr (VStruct (vs[i := VPtr (Some p)])))"
  proof
    assume a: "ex \<and> i < length vs \<and> vs ! i = VPtr (Some q)"
    have cl: "call ?pre (VStruct vs, root ?T) = Inr (VStruct vs, ?v)"
      using a assms(1,2)
      by (simp add: root_def Value_Field_def allocElem_def Value_IsNil_def Value_Elem_def)
    have ld: "load ?pre (VStruct vs) = Some q" using a by simp
    show "deserialize ms [Capture ord (FieldStep i # ElemStep # g)] (root ?T) (VStruct vs)
              = (case deserialize ms [Capture ord g] (root S) q of
                   Inl e \<Rightarrow> Inl e
                 | Inr p \<Rightarrow> Inr (VStruct (vs[i := VPtr (Some p)])))"
      using run [OF _ _ cl ld] a by (simp cong: sum.case_cong)
  qed
  show ?thesis using c p2 p3 p4 by blast
qed

theorem C8_embedded_pointer_witness:
  "lookup (extractFields (KStruct ''Address'' False False address_fields) ''rx'') ''city''
     = Some [FieldStep 0]
   \<and> lookup (extractFields person_ptr ''rx'') ''city'' = Some [FieldStep 1, ElemStep, FieldStep 0]
   \<and> deserialize [''X / Y / Z'', ''X'', ''Y'', ''Z'']
         [Capture 2 [FieldStep 1, ElemStep, FieldStep 0]] (root person_ptr)
         (VStruct [VString [], VPtr None])
       = Inr (VStruct [VString [], VPtr (Some (VStruct [VString ''Y'', VString []]))])
   \<and> deserialize [''X / Y / Z'', ''X'', ''Y'', ''Z'']
         [Capture 2 [FieldStep 1, ElemStep, FieldStep 0]] (root person_ptr)
         (VStruct [VString [], VPtr (Some (VStruct [VString ''a'', VString ''b'']))])
       = Inr (VStruct [VString [], VPtr (Some (VStruct [VString ''Y'', VString ''b'']))])"
proof -
  let ?S = "KStruct ''Address'' False False address_fields"
  let ?fs = "[StructField ''Name'' True False [(''rx'', ''name'')] KString,
      StructField ''Address'' True True [] (KPtr ?S)]"
  let ?ms = "[''X / Y / Z'', ''X'', ''Y'', ''Z'']"
  have h1: "(1::nat) < length ?fs" by simp
  have h2: "?fs ! 1 = StructField ''Address'' True True [] (KPtr ?S)" by simp
  have h3: "Lookup [] ''rx'' = ([], False)" by (simp add: Lookup_def)
  have h4: "\<not> (False \<and> ([]::string) \<noteq> [])" by simp
  have h5: "lookup (extractFields ?S ''rx'') ''city'' = Some [FieldStep 0]"
    by (simp add: address_fields_def Lookup_def assign_def lookup_def)
  have h6: "\<forall>k. 1 < k \<and> k < length ?fs \<longrightarrow>
              lookup (extractField (?fs ! k) k ''rx'' None) ''city'' = None"
  proof (intro allI impI)
    fix k :: nat
    assume "1 < k \<and> k < length ?fs"
    then have False by auto
    then show "lookup (extractField (?fs ! k) k ''rx'' None) ''city'' = None" ..
  qed
  have z: "deserialize ?ms [Capture 2 [FieldStep 0]] (root ?S) (zero ?S)
             = Inr (VStruct [VString ''Y'', VString []])"
    by (simp add: address_fields_def root_def Value_Field_def Value_SetString_def flagRO_def)
  have y: "deserialize ?ms [Capture 2 [FieldStep 0]] (root ?S) (VStruct [VString ''a'', VString ''b''])
             = Inr (VStruct [VString ''Y'', VString ''b''])"
    by (simp add: address_fields_def root_def Value_Field_def Value_SetString_def flagRO_def)
  note T1 = C8_embedded_pointer [OF h1 h2 h3 h4 h5, where sn = "''person''" and ss = False
      and su = False and vs = "[VString [], VPtr None]" and ms = ?ms and ord = 2]
  note T2 = C8_embedded_pointer [OF h1 h2 h3 h4 h5, where sn = "''person''" and ss = False
      and su = False and vs = "[VString [], VPtr (Some (VStruct [VString ''a'', VString ''b'']))]"
      and ms = ?ms and ord = 2 and q = "VStruct [VString ''a'', VString ''b'']"]
  from T1 h6 have a: "lookup (extractFields person_ptr ''rx'') ''city''
                        = Some [FieldStep 1, ElemStep, FieldStep 0]"
    unfolding person_ptr_def by blast
  from T1 have b: "deserialize ?ms [Capture 2 [FieldStep 1, ElemStep, FieldStep 0]]
         (root person_ptr) (VStruct [VString [], VPtr None])
       = Inr (VStruct [VString [], VPtr (Some (VStruct [VString ''Y'', VString []]))])"
    unfolding person_ptr_def z by simp
  from T2 have c: "deserialize ?ms [Capture 2 [FieldStep 1, ElemStep, FieldStep 0]]
         (root person_ptr) (VStruct [VString [], VPtr (Some (VStruct [VString ''a'', VString ''b'']))])
       = Inr (VStruct [VString [], VPtr (Some (VStruct [VString ''Y'', VString ''b'']))])"
    unfolding person_ptr_def y by simp
  show ?thesis using h5 a b c by blast
qed

section \<open>Embedded members and colliding names\<close>

text \<open>
  C9. Let field \<open>j\<close> of a struct type be anonymous with no non-empty value under the
  tag key, and let \<open>extractFields\<close> on its type produce the name \<open>n\<close> with getter \<open>g\<close>.
  Then the field contributes the name \<open>n\<close> itself, with no prefix, with the getter that
  takes field \<open>j\<close> and then runs \<open>g\<close>; \<open>n\<close> is a key of the map of the enclosing type;
  and the getter the enclosing map holds for \<open>n\<close> is the one contributed by the last
  declared field that contributes \<open>n\<close>: of two sibling fields that resolve the same name,
  the later one wins.
\<close>

theorem C9_embedded_merge_last_wins:
  assumes "j < length fs"
      and "fs ! j = StructField nm ex True tg ty"
      and "Lookup tg tagName = (t, ok)" and "\<not> (ok \<and> t \<noteq> [])"
      and "lookup (extractFields ty tagName) n = Some g"
  shows "lookup (extractField (fs ! j) j tagName None) n = Some (FieldStep j # g)
       \<and> lookup (extractFields (KStruct sn ss su fs) tagName) n \<noteq> None
       \<and> (\<forall>k p. k < length fs
              \<and> lookup (extractField (fs ! k) k tagName None) n = Some p
              \<and> (\<forall>l. k < l \<and> l < length fs \<longrightarrow>
                     lookup (extractField (fs ! l) l tagName None) n = None)
            \<longrightarrow> lookup (extractFields (KStruct sn ss su fs) tagName) n = Some p)"
proof -
  have c: "lookup (extractField (fs ! j) j tagName None) n = Some (FieldStep j # g)"
    using contrib_embedded [OF assms(3,4), of nm ex ty j n] assms(2,5) by simp
  have p2: "lookup (extractFields (KStruct sn ss su fs) tagName) n \<noteq> None"
    using extractLoop_some [OF assms(1), of 0 tagName n None] c by simp
  have p3: "\<forall>k p. k < length fs
              \<and> lookup (extractField (fs ! k) k tagName None) n = Some p
              \<and> (\<forall>l. k < l \<and> l < length fs \<longrightarrow>
                     lookup (extractField (fs ! l) l tagName None) n = None)
            \<longrightarrow> lookup (extractFields (KStruct sn ss su fs) tagName) n = Some p"
  proof (intro allI impI)
    fix k p
    assume a: "k < length fs
              \<and> lookup (extractField (fs ! k) k tagName None) n = Some p
              \<and> (\<forall>l. k < l \<and> l < length fs \<longrightarrow>
                     lookup (extractField (fs ! l) l tagName None) n = None)"
    show "lookup (extractFields (KStruct sn ss su fs) tagName) n = Some p"
      using extractLoop_last [of k fs 0 tagName n p None] a by simp
  qed
  show ?thesis using c p2 p3 by blast
qed

theorem C9_embedded_merge_last_wins_witness:
  "lookup (extractFields (KStruct ''address'' False False address_fields) ''rx'') ''city''
     = Some [FieldStep 0]
   \<and> lookup (extractField (StructField ''address'' False True []
               (KStruct ''address'' False False address_fields)) 0 ''rx'' None) ''city''
       = Some [FieldStep 0, FieldStep 0]
   \<and> lookup (extractField (StructField ''Town'' True False [(''rx'', ''city'')] KString)
               1 ''rx'' None) ''city''
       = Some [FieldStep 1]
   \<and> lookup (extractFields person_collide ''rx'') ''city'' = Some [FieldStep 1]"
proof -
  let ?fs = "[StructField ''address'' False True [] (KStruct ''address'' False False address_fields),
      StructField ''Town'' True False [(''rx'', ''city'')] KString]"
  have h1: "(0::nat) < length ?fs" by simp
  have h2: "?fs ! 0 = StructField ''address'' False True []
               (KStruct ''address'' False False address_fields)" by simp
  have h3: "Lookup [] ''rx'' = ([], False)" by (simp add: Lookup_def)
  have h4: "\<not> (False \<and> ([]::string) \<noteq> [])" by simp
  have h5: "lookup (extractFields (KStruct ''address'' False False address_fields) ''rx'') ''city''
     = Some [FieldStep 0]"
    by (simp add: address_fields_def Lookup_def assign_def lookup_def)
  have k1: "(1::nat) < length ?fs" by simp
  have k2: "lookup (extractField (?fs ! 1) 1 ''rx'' None) ''city'' = Some [FieldStep 1]"
    by (simp add: Lookup_def assign_def lookup_def)
  have k3: "\<forall>l. 1 < l \<and> l < length ?fs \<longrightarrow>
                     lookup (extractField (?fs ! l) l ''rx'' None) ''city'' = None"
  proof (intro allI impI)
    fix l :: nat
    assume "1 < l \<and> l < length ?fs"
    then have False by auto
    then show "lookup (extractField (?fs ! l) l ''rx'' None) ''city'' = None" ..
  qed
  note T = C9_embedded_merge_last_wins [OF h1 h2 h3 h4 h5, of "''person''" False False]
  from T have a: "lookup (extractField (StructField ''address'' False True []
               (KStruct ''address'' False False address_fields)) 0 ''rx'' None) ''city''
       = Some [FieldStep 0, FieldStep 0]"
    by simp
  from T k1 k2 k3 have b: "lookup (extractFields person_collide ''rx'') ''city'' = Some [FieldStep 1]"
    unfolding person_collide_def by blast
  from k2 have k2': "lookup (extractField (StructField ''Town'' True False [(''rx'', ''city'')] KString)
               1 ''rx'' None) ''city'' = Some [FieldStep 1]" by simp
  show ?thesis using h5 a k2' b by blast
qed

section \<open>What a match leaves alone\<close>

text \<open>
  C10. When \<open>FindStringStruct\<close> returns true, every place of the caller's target that
  is neither on the way to the place a binding's getter leads to, nor that place, nor
  below it, holds after the call the value it held before. The target is not zeroed.
\<close>

theorem C10_frame:
  assumes "FindStringStruct T m s target = Inr (True, target')"
      and "load l target = Some y"
      and "\<forall>c\<in>set (captures m). \<not> prefix l (get c) \<and> \<not> prefix (get c) l"
  shows "load l target' = Some y"
proof -
  from assms(1) obtain ms where "deserialize ms (captures m) (root T) target = Inr target'"
    by (auto simp: FindStringStruct_def split: option.splits sum.splits)
  then show ?thesis
    using deserialize_frame [of ms "captures m" "root T" target target' l y] assms(2,3)
    by (simp add: root_def)
qed

theorem C10_frame_witness:
  "FindStringStruct keyed_note keyed_matcher ''a=b'' (VStruct [VString ''old'', VString ''kept''])
     = Inr (True, VStruct [VString ''a'', VString ''kept''])
   \<and> load [FieldStep 1] (VStruct [VString ''old'', VString ''kept'']) = Some (VString ''kept'')
   \<and> captures keyed_matcher = [Capture 1 [FieldStep 0]]
   \<and> \<not> prefix [FieldStep 1] [FieldStep 0] \<and> \<not> prefix [FieldStep 0] [FieldStep 1]
   \<and> load [FieldStep 1] (VStruct [VString ''a'', VString ''kept'']) = Some (VString ''kept'')"
proof -
  have h1: "FindStringStruct keyed_note keyed_matcher ''a=b''
              (VStruct [VString ''old'', VString ''kept''])
            = Inr (True, VStruct [VString ''a'', VString ''kept''])"
    by (simp add: FindStringStruct_def keyed_matcher_def kv_regexp_def anchored_def kv_find_def
          split_last_def keyed_note_def root_def Value_Field_def Value_SetString_def flagRO_def)
  have h2: "load [FieldStep 1] (VStruct [VString ''old'', VString ''kept''])
              = Some (VString ''kept'')"
    by simp
  have h3: "\<forall>c\<in>set (captures keyed_matcher).
              \<not> prefix [FieldStep 1] (get c) \<and> \<not> prefix (get c) [FieldStep 1]"
    by (simp add: keyed_matcher_def)
  have h4: "captures keyed_matcher = [Capture 1 [FieldStep 0]]"
    by (simp add: keyed_matcher_def)
  from C10_frame [OF h1 h2 h3] h1 h2 h4 show ?thesis by simp
qed

end
